theory Spec2Isabelle
  imports Main "HOL-Library.Word"
begin

unbundle bit_operations_syntax

section \<open>The page of the on-disk ring buffer\<close>

text \<open>
  The repository holds the page code twice: \<^verbatim>\<open>src/unnamed/part_000\<close>, which includes
  \<^verbatim>\<open>page.h\<close>, and the self-contained \<^verbatim>\<open>src/src/page.c\<close>. The two differ in a handful
  of comparisons and in one missing \<^verbatim>\<open>return\<close>. Both are embedded: the functions of
  \<^verbatim>\<open>part_000\<close> keep the source's names, those of \<^verbatim>\<open>page.c\<close> carry the suffix
  \<open>_page_c\<close>.

  \<^verbatim>\<open>size_t\<close> is taken to be 64 bits wide (with 32 bits the index field of the state
  word, 24 bits, could not address either value of \<^verbatim>\<open>QUEUE_SIZE\<close>). All index
  arithmetic is arithmetic of 64-bit words and wraps around as in C.

  One thread runs at a time: an operation is executed from its first to its last
  statement before the next one starts, so an atomic read-modify-write is a read
  followed by a write. The one statement that is also given as a step of its own is
  the store to \<^verbatim>\<open>last_safe_write_idx\<close> (\<open>store_safe_end\<close>), to show what two overlapping
  readers do to that field.
\<close>

subsection \<open>Constants and types (page.h)\<close>

type_synonym size_t = "64 word"
type_synonym byte = "8 word"

text \<open>\<^verbatim>\<open>#define QUEUE_SIZE 4096 * 16000\<close> (page.h) and \<^verbatim>\<open>4096 * 32000\<close> (page.c). The
  functions below take the size of the arena as their first argument \<open>qs\<close>, so that
  they can also be run on a small arena; the two values of the source are:\<close>

definition QUEUE_SIZE :: size_t where
  "QUEUE_SIZE = 4096 * 16000"

definition QUEUE_SIZE_page_c :: size_t where
  "QUEUE_SIZE_page_c = 4096 * 32000"

definition VALUE_TERM_BYTE :: byte where
  "VALUE_TERM_BYTE = 0xFF"

text \<open>\<^verbatim>\<open>const size_t QUEUE_MAGIC_NUM = (size_t)0b1 << ((sizeof(size_t) * 8) - 8);\<close>\<close>

definition QUEUE_MAGIC_NUM :: size_t where
  "QUEUE_MAGIC_NUM = push_bit (8 * 8 - 8) 1"

definition QUEUE_MAGIC_MASK :: size_t where
  "QUEUE_MAGIC_MASK = QUEUE_MAGIC_NUM - 1"

definition READ_ERROR :: int where
  "READ_ERROR = - 1"

definition READ_ERROR_page_c :: int where
  "READ_ERROR_page_c = - 12"

definition READ_SUCCESS :: int where
  "READ_SUCCESS = 0"

definition READ_FINISHED :: int where
  "READ_FINISHED = 1"

definition READ_EMPTY :: int where
  "READ_EMPTY = 2"

definition WRITE_PAGE_FULL :: int where
  "WRITE_PAGE_FULL = 0"

text \<open>\<^verbatim>\<open>CSlice\<close>: the pointer is either null (\<open>None\<close>) or the address of
  \<^verbatim>\<open>p->buf[i]\<close> (\<open>Some i\<close>).\<close>

record CSlice =
  len :: size_t
  ptr :: "size_t option"
  read_status :: int

text \<open>\<^verbatim>\<open>RawQPage\<close>: three atomic words and the arena. The arena is a function of the
  index; only the indices below the arena size exist in memory, and every access
  beyond them is a fault of the model (see \<open>fault\<close>). page.c declares a fourth word,
  \<^verbatim>\<open>last_idx\<close>, between \<^verbatim>\<open>last_safe_write_idx\<close> and \<^verbatim>\<open>buf\<close>, which no function reads or
  writes; it is left out.\<close>

record RawQPage =
  is_ready :: size_t
  write_idx_lock :: size_t
  last_safe_write_idx :: size_t
  buf :: "size_t \<Rightarrow> byte"

text \<open>What \<^verbatim>\<open>raw_qpage_new\<close> maps for a file that did not exist: \<^verbatim>\<open>ftruncate\<close> fills
  it with zeros.\<close>

definition raw_qpage_new :: RawQPage where
  "raw_qpage_new =
     \<lparr>is_ready = 0, write_idx_lock = 0, last_safe_write_idx = 0, buf = (\<lambda>i. 0)\<rparr>"

text \<open>An access outside an array is undefined behaviour in C; the model returns
  \<open>Inl OutOfBounds\<close> in its place.\<close>

datatype fault = OutOfBounds

text \<open>The two fields of the state word.\<close>

definition writer_count :: "size_t \<Rightarrow> size_t" where
  "writer_count w = drop_bit 56 w"

definition write_index :: "size_t \<Rightarrow> size_t" where
  "write_index w = w AND QUEUE_MAGIC_MASK"

subsection \<open>raw\_qpage\_push (part\_000, lines 67-98)\<close>

text \<open>\<^verbatim>\<open>memcpy(&p->buf[start], buf, len)\<close>, byte by byte.\<close>

fun memcpy :: "(size_t \<Rightarrow> byte) \<Rightarrow> size_t \<Rightarrow> byte list \<Rightarrow> (size_t \<Rightarrow> byte)" where
  "memcpy b i [] = b"
| "memcpy b i (x # xs) = memcpy (b(i := x)) (i + 1) xs"

text \<open>\<^verbatim>\<open>return len + 1;\<close> converts a \<^verbatim>\<open>size_t\<close> to \<^verbatim>\<open>int\<close> (32 bits, two's
  complement).\<close>

definition to_int :: "size_t \<Rightarrow> int" where
  "to_int w = sint (ucast w :: 32 word)"

text \<open>
  \<open>raw_qpage_push qs p bs n\<close> is the call \<^verbatim>\<open>raw_qpage_push(p, buf, len)\<close> where \<open>bs\<close>
  are the bytes that \<^verbatim>\<open>buf\<close> points to and \<open>n\<close> is \<^verbatim>\<open>len\<close>. The result is the returned
  \<^verbatim>\<open>int\<close> and the page after the call. The page-full branch never reads \<^verbatim>\<open>buf\<close>. The
  other branch reads \<open>n\<close> bytes of it and writes \<open>n + 1\<close> bytes of the arena; it is a
  fault when \<^verbatim>\<open>buf\<close> has fewer bytes or the arena ends before \<^verbatim>\<open>start + len\<close> (which
  the test of the source lets through only when \<^verbatim>\<open>start + len\<close> wraps around).
\<close>

definition raw_qpage_push ::
  "size_t \<Rightarrow> RawQPage \<Rightarrow> byte list \<Rightarrow> size_t \<Rightarrow> fault + (int \<times> RawQPage)" where
  "raw_qpage_push qs p bs n =
    (let start = write_idx_lock p;
         p = p\<lparr>write_idx_lock := write_idx_lock p + (QUEUE_MAGIC_NUM + n + 1)\<rparr>;
         start = start AND QUEUE_MAGIC_MASK
     in
       if start + n \<ge> qs - 1 then
         (let p = (if start \<le> qs - 1 then p\<lparr>buf := (buf p)(start := 0xFD)\<rparr> else p);
              p = p\<lparr>write_idx_lock := write_idx_lock p - QUEUE_MAGIC_NUM\<rparr>
          in Inr (WRITE_PAGE_FULL, p))
       else if length bs < unat n \<or> unat qs \<le> unat start + unat n then Inl OutOfBounds
       else
         (let p = p\<lparr>buf := memcpy (buf p) start (take (unat n) bs)\<rparr>;
              p = p\<lparr>buf := (buf p)(start + n := VALUE_TERM_BYTE)\<rparr>;
              p = p\<lparr>write_idx_lock := write_idx_lock p - QUEUE_MAGIC_NUM\<rparr>
          in Inr (to_int (n + 1), p)))"

subsection \<open>\_get\_write\_idx\_spin (part\_000, lines 131-156)\<close>

text \<open>
  The loop \<^verbatim>\<open>while (1) { end = load(write_idx_lock); if (...) break; sleep(0); }\<close>.
  Nothing changes the page while the reader spins, so the loop either leaves at its
  first round or never; never leaving is the value \<open>None\<close>.
\<close>

definition spin_exit :: "size_t \<Rightarrow> bool" where
  "spin_exit e = ((e AND NOT QUEUE_MAGIC_MASK) = 0)"

partial_function (option) spin :: "RawQPage \<Rightarrow> size_t option" where
  "spin p = (if spin_exit (write_idx_lock p) then Some (write_idx_lock p) else spin p)"

declare spin.simps [code]

text \<open>The result is the clamped \<^verbatim>\<open>end\<close> and the page, whose \<^verbatim>\<open>last_safe_write_idx\<close> the
  function may have stored to.\<close>

definition get_write_idx_spin ::
  "size_t \<Rightarrow> RawQPage \<Rightarrow> size_t \<Rightarrow> (size_t \<times> RawQPage) option" where
  "get_write_idx_spin qs p start_byte =
    (let e = last_safe_write_idx p in
       if e \<le> start_byte then
         (case spin p of
            None \<Rightarrow> None
          | Some e \<Rightarrow>
              Some (if qs < e then qs else e, p\<lparr>last_safe_write_idx := e\<rparr>))
       else Some (if qs < e then qs else e, p))"

subsection \<open>raw\_qpage\_pop (part\_000, lines 158-203)\<close>

text \<open>\<^verbatim>\<open>for (i = start_byte; i < end; i++) if (p->buf[i] == VALUE_TERM_BYTE) break;\<close>
  The value is \<open>i\<close> after the loop. The loop reads below \<open>end\<close> only, and \<open>end\<close> is
  at most the arena size.\<close>

function scan :: "(size_t \<Rightarrow> byte) \<Rightarrow> size_t \<Rightarrow> size_t \<Rightarrow> size_t" where
  "scan b i e = (if i < e then (if b i = VALUE_TERM_BYTE then i else scan b (i + 1) e) else i)"
  by pat_completeness auto
termination
proof (relation "measure (\<lambda>(b, i, e). unat e - unat i)")
  show "wf (measure (\<lambda>(b, i, e). unat e - unat i))"
    by simp
next
  fix b :: "size_t \<Rightarrow> byte" and i e :: size_t
  assume "i < e"
  then have "unat e - unat (i + 1) < unat e - unat i"
    by unat_arith
  then show "((b, i + 1, e), (b, i, e)) \<in> measure (\<lambda>(b, i, e). unat e - unat i)"
    by simp
qed

declare scan.simps [simp del]

definition raw_qpage_pop ::
  "size_t \<Rightarrow> RawQPage \<Rightarrow> size_t \<Rightarrow> (fault + (CSlice \<times> RawQPage)) option" where
  "raw_qpage_pop qs p start_byte =
    (case get_write_idx_spin qs p start_byte of
       None \<Rightarrow> None
     | Some (e, p) \<Rightarrow>
         Some
          (if e \<le> start_byte then
             Inr (\<lparr>len = 0, ptr = None, read_status = READ_EMPTY\<rparr>, p)
           else if \<not> start_byte < qs then Inl OutOfBounds
           else if buf p start_byte = 0xFD then
             Inr (\<lparr>len = 0, ptr = None, read_status = READ_FINISHED\<rparr>, p)
           else
             (let i = scan (buf p) start_byte e in
                if \<not> i < qs then Inl OutOfBounds
                else if buf p i \<noteq> VALUE_TERM_BYTE then
                  Inr (\<lparr>len = 0, ptr = None, read_status = READ_ERROR\<rparr>, p)
                else
                  Inr (\<lparr>len = i - start_byte, ptr = Some start_byte,
                        read_status = READ_SUCCESS\<rparr>, p))))"

text \<open>The bytes a returned slice denotes: \<open>len\<close> bytes of the arena from \<open>ptr\<close> on.\<close>

fun read_bytes :: "(size_t \<Rightarrow> byte) \<Rightarrow> size_t \<Rightarrow> nat \<Rightarrow> byte list" where
  "read_bytes b a 0 = []"
| "read_bytes b a (Suc k) = b a # read_bytes b (a + 1) k"

definition slice_bytes :: "RawQPage \<Rightarrow> CSlice \<Rightarrow> byte list" where
  "slice_bytes p cs =
     (case ptr cs of
        None \<Rightarrow> []
      | Some a \<Rightarrow> read_bytes (buf p) a (unat (len cs)))"

subsection \<open>The variant of src/src/page.c\<close>

text \<open>\<^verbatim>\<open>raw_qpage_push\<close> of page.c (lines 122-153) guards the sentinel with
  \<^verbatim>\<open>start < QUEUE_SIZE - 1\<close> where part\_000 has \<^verbatim>\<open>start <= QUEUE_SIZE - 1\<close>; the rest
  is the same (the memory orders do not show when one thread runs at a time).\<close>

definition raw_qpage_push_page_c ::
  "size_t \<Rightarrow> RawQPage \<Rightarrow> byte list \<Rightarrow> size_t \<Rightarrow> fault + (int \<times> RawQPage)" where
  "raw_qpage_push_page_c qs p bs n =
    (let start = write_idx_lock p;
         p = p\<lparr>write_idx_lock := write_idx_lock p + (QUEUE_MAGIC_NUM + n + 1)\<rparr>;
         start = start AND QUEUE_MAGIC_MASK
     in
       if start + n \<ge> qs - 1 then
         (let p = (if start < qs - 1 then p\<lparr>buf := (buf p)(start := 0xFD)\<rparr> else p);
              p = p\<lparr>write_idx_lock := write_idx_lock p - QUEUE_MAGIC_NUM\<rparr>
          in Inr (WRITE_PAGE_FULL, p))
       else if length bs < unat n \<or> unat qs \<le> unat start + unat n then Inl OutOfBounds
       else
         (let p = p\<lparr>buf := memcpy (buf p) start (take (unat n) bs)\<rparr>;
              p = p\<lparr>buf := (buf p)(start + n := VALUE_TERM_BYTE)\<rparr>;
              p = p\<lparr>write_idx_lock := write_idx_lock p - QUEUE_MAGIC_NUM\<rparr>
          in Inr (to_int (n + 1), p)))"

text \<open>C's logical negation \<^verbatim>\<open>!x\<close>, as a \<^verbatim>\<open>size_t\<close> operand of \<^verbatim>\<open>&\<close>.\<close>

definition lnot :: "size_t \<Rightarrow> size_t" where
  "lnot x = (if x = 0 then 1 else 0)"

text \<open>\<^verbatim>\<open>_get_write_idx_spin\<close> of page.c (lines 188-213) tests
  \<^verbatim>\<open>(end & !QUEUE_MAGIC_MASK) == 0\<close>. The loop of \<^verbatim>\<open>raw_qpage_pop_fast_read\<close> (page.c lines
  162-170, part\_000 lines 107-113) is the same loop with the same test.\<close>

definition spin_exit_page_c :: "size_t \<Rightarrow> bool" where
  "spin_exit_page_c e = ((e AND lnot QUEUE_MAGIC_MASK) = 0)"

partial_function (option) spin_page_c :: "RawQPage \<Rightarrow> size_t option" where
  "spin_page_c p =
     (if spin_exit_page_c (write_idx_lock p) then Some (write_idx_lock p) else spin_page_c p)"

declare spin_page_c.simps [code]

definition get_write_idx_spin_page_c ::
  "size_t \<Rightarrow> RawQPage \<Rightarrow> size_t \<Rightarrow> (size_t \<times> RawQPage) option" where
  "get_write_idx_spin_page_c qs p start_byte =
    (let e = last_safe_write_idx p in
       if e \<le> start_byte then
         (case spin_page_c p of
            None \<Rightarrow> None
          | Some e \<Rightarrow>
              Some (if qs < e then qs else e, p\<lparr>last_safe_write_idx := e\<rparr>))
       else Some (if qs < e then qs else e, p))"

text \<open>\<^verbatim>\<open>raw_qpage_pop\<close> of page.c (lines 215-258) tests \<^verbatim>\<open>end == start_byte\<close> for the
  empty case, and after the scan its \<^verbatim>\<open>if (p->buf[i] != VALUE_TERM_BYTE) { ... }\<close> has no
  \<^verbatim>\<open>return\<close>: the three assignments of lines 252-254 follow on both paths. \<^verbatim>\<open>CSlice cs;\<close>
  is declared without an initialiser; every path assigns all three fields before it
  returns, so the value \<open>cs0\<close> it starts from does not show in any result.\<close>

definition cs0 :: CSlice where
  "cs0 = \<lparr>len = 0, ptr = None, read_status = 0\<rparr>"

definition raw_qpage_pop_page_c ::
  "size_t \<Rightarrow> RawQPage \<Rightarrow> size_t \<Rightarrow> (fault + (CSlice \<times> RawQPage)) option" where
  "raw_qpage_pop_page_c qs p start_byte =
    (case get_write_idx_spin_page_c qs p start_byte of
       None \<Rightarrow> None
     | Some (e, p) \<Rightarrow>
         Some
          (if e = start_byte then
             Inr (\<lparr>len = 0, ptr = None, read_status = READ_EMPTY\<rparr>, p)
           else if \<not> start_byte < qs then Inl OutOfBounds
           else if buf p start_byte = 0xFD then
             Inr (\<lparr>len = 0, ptr = None, read_status = READ_FINISHED\<rparr>, p)
           else
             (let i = scan (buf p) start_byte e in
                if \<not> i < qs then Inl OutOfBounds
                else
                  (let cs = (if buf p i \<noteq> VALUE_TERM_BYTE
                             then cs0\<lparr>len := 0, ptr := None, read_status := READ_ERROR_page_c\<rparr>
                             else cs0);
                       cs = cs\<lparr>len := i - start_byte, ptr := Some start_byte,
                                read_status := READ_SUCCESS\<rparr>
                   in Inr (cs, p)))))"

subsection \<open>Sequences of calls\<close>

text \<open>A call, and what it returned. \<open>Popped cs bs\<close>: the slice, and the bytes of the
  arena it denotes when \<^verbatim>\<open>raw_qpage_pop\<close> returns.\<close>

datatype op = Push "byte list" size_t | Pop size_t

datatype ret = Pushed int | Popped CSlice "byte list"

text \<open>One call on the page; \<open>None\<close> when it faults or never returns.\<close>

fun step :: "size_t \<Rightarrow> RawQPage \<Rightarrow> op \<Rightarrow> (ret \<times> RawQPage) option" where
  "step qs p (Push bs n) =
     (case raw_qpage_push qs p bs n of
        Inl f \<Rightarrow> None
      | Inr (r, p') \<Rightarrow> Some (Pushed r, p'))"
| "step qs p (Pop c) =
     (case raw_qpage_pop qs p c of
        None \<Rightarrow> None
      | Some (Inl f) \<Rightarrow> None
      | Some (Inr (cs, p')) \<Rightarrow> Some (Popped cs (slice_bytes p' cs), p'))"

fun step_page_c :: "size_t \<Rightarrow> RawQPage \<Rightarrow> op \<Rightarrow> (ret \<times> RawQPage) option" where
  "step_page_c qs p (Push bs n) =
     (case raw_qpage_push_page_c qs p bs n of
        Inl f \<Rightarrow> None
      | Inr (r, p') \<Rightarrow> Some (Pushed r, p'))"
| "step_page_c qs p (Pop c) =
     (case raw_qpage_pop_page_c qs p c of
        None \<Rightarrow> None
      | Some (Inl f) \<Rightarrow> None
      | Some (Inr (cs, p')) \<Rightarrow> Some (Popped cs (slice_bytes p' cs), p'))"

text \<open>The calls of a list one after the other: what each returned and the page it left,
  up to the first call that faults or never returns. \<open>st\<close> is \<open>step qs\<close> or
  \<open>step_page_c qs\<close>.\<close>

fun run_with ::
  "(RawQPage \<Rightarrow> op \<Rightarrow> (ret \<times> RawQPage) option) \<Rightarrow> RawQPage \<Rightarrow> op list \<Rightarrow>
   (ret \<times> RawQPage) list" where
  "run_with st p [] = []"
| "run_with st p (x # xs) =
     (case st p x of
        None \<Rightarrow> []
      | Some (r, p') \<Rightarrow> (r, p') # run_with st p' xs)"

definition run :: "size_t \<Rightarrow> RawQPage \<Rightarrow> op list \<Rightarrow> (ret \<times> RawQPage) list" where
  "run qs = run_with (step qs)"

definition run_page_c :: "size_t \<Rightarrow> RawQPage \<Rightarrow> op list \<Rightarrow> (ret \<times> RawQPage) list" where
  "run_page_c qs = run_with (step_page_c qs)"

text \<open>The values that the pushes of a run returned.\<close>

fun pushed :: "(ret \<times> RawQPage) list \<Rightarrow> int list" where
  "pushed [] = []"
| "pushed ((Pushed r, q) # tr) = r # pushed tr"
| "pushed ((Popped cs b, q) # tr) = pushed tr"

text \<open>The bytes of the arena that the pushes of a list reserve: \<^verbatim>\<open>len + 1\<close> each.\<close>

fun reserved :: "op list \<Rightarrow> nat" where
  "reserved [] = 0"
| "reserved (Push bs n # xs) = unat n + 1 + reserved xs"
| "reserved (Pop c # xs) = reserved xs"

text \<open>The call at which a run stopped: the first call of the list that faulted or never
  returned, if there is one (\<open>tr\<close> is the run of \<open>ops\<close>).\<close>

definition stopped_at :: "op list \<Rightarrow> (ret \<times> RawQPage) list \<Rightarrow> op option" where
  "stopped_at ops tr = (if length tr < length ops then Some (ops ! length tr) else None)"

fun is_push :: "op \<Rightarrow> bool" where
  "is_push (Push bs n) = True"
| "is_push (Pop c) = False"

text \<open>\<^verbatim>\<open>atomic_store_explicit(&p->last_safe_write_idx, end, memory_order_relaxed);\<close>
  (part\_000 line 150, page.c line 207), the statement of \<^verbatim>\<open>_get_write_idx_spin\<close> that
  follows its loop, as a step of its own. \<open>get_write_idx_spin\<close> above runs the loop and this
  store together (\<open>get_write_idx_spin_steps\<close>); when two readers overlap, calls of other
  threads run between the last load of the loop and the store.\<close>

definition store_safe_end :: "size_t \<Rightarrow> RawQPage \<Rightarrow> RawQPage" where
  "store_safe_end e p = p\<lparr>last_safe_write_idx := e\<rparr>"

section \<open>Auxiliary facts\<close>

subsection \<open>The state word\<close>

lemma magic_mask_eq_mask: "QUEUE_MAGIC_MASK = mask 56"
  by (simp add: QUEUE_MAGIC_MASK_def QUEUE_MAGIC_NUM_def mask_eq_exp_minus_1)

lemma and_not_mask_eq_0_iff:
  "(w AND NOT (mask n) = 0) \<longleftrightarrow> (take_bit n w = w)" for w :: "'a::len word"
  by (auto simp: bit_eq_iff bit_simps)

lemma spin_exit_iff: "spin_exit w \<longleftrightarrow> writer_count w = 0"
  unfolding spin_exit_def writer_count_def magic_mask_eq_mask
  by (simp add: and_not_mask_eq_0_iff take_bit_eq_self_iff_drop_bit_eq_0)

lemma write_index_eq_iff: "write_index w = w \<longleftrightarrow> writer_count w = 0"
  unfolding write_index_def writer_count_def magic_mask_eq_mask
  by (simp flip: take_bit_eq_mask add: take_bit_eq_self_iff_drop_bit_eq_0)

lemma unat_write_index: "unat (write_index w) < 2 ^ 56"
  unfolding write_index_def magic_mask_eq_mask
  by (metis (mono_tags, lifting) and_mask_lt_2p of_nat_less_numeral_power_cancel_iff of_nat_unat)

subsection \<open>The spin loop\<close>

lemma spin_Some:
  assumes "spin p = Some y"
  shows "spin_exit (write_idx_lock p) \<and> y = write_idx_lock p"
  using assms by (rule spin.raw_induct [rotated 1]) (auto split: if_splits)

lemma spin_eq:
  "spin p = (if spin_exit (write_idx_lock p) then Some (write_idx_lock p) else None)"
proof (cases "spin_exit (write_idx_lock p)")
  case True
  then show ?thesis by (subst spin.simps) simp
next
  case False
  then show ?thesis using spin_Some [of p] by (cases "spin p") auto
qed

subsection \<open>memcpy, the scan and the bytes of a slice\<close>

lemma memcpy_apply:
  "unat i + length xs \<le> 2 ^ 64 \<Longrightarrow>
   memcpy b i xs j =
     (if unat i \<le> unat j \<and> unat j < unat i + length xs then xs ! (unat j - unat i) else b j)"
proof (induction xs arbitrary: b i)
  case Nil
  then show ?case by auto
next
  case (Cons x xs)
  show ?case
  proof (cases "xs = []")
    case True
    then show ?thesis by (auto simp: word_unat_eq_iff)
  next
    case False
    with Cons.prems have lt: "unat i + 1 < 2 ^ 64"
      by (cases xs) auto
    then have suc: "unat (i + 1) = unat i + 1"
      using unat_add_lem [of i 1] by simp
    have "memcpy (b(i := x)) (i + 1) xs j =
      (if unat (i + 1) \<le> unat j \<and> unat j < unat (i + 1) + length xs
       then xs ! (unat j - unat (i + 1)) else (b(i := x)) j)"
      using Cons.prems suc by (intro Cons.IH) simp
    then show ?thesis
      using suc by (auto simp: word_unat_eq_iff nth_Cons')
  qed
qed

lemma scan_first:
  "i \<le> t \<Longrightarrow> t < e \<Longrightarrow> b t = VALUE_TERM_BYTE \<Longrightarrow>
   (\<And>j. i \<le> j \<Longrightarrow> j < t \<Longrightarrow> b j \<noteq> VALUE_TERM_BYTE) \<Longrightarrow> scan b i e = t"
proof (induction b i e rule: scan.induct)
  case (1 b i e)
  show ?case
  proof (cases "i = t")
    case True
    with "1.prems" show ?thesis by (subst scan.simps) simp
  next
    case False
    with "1.prems" have "i < t" by simp
    then have "i + 1 \<le> t" by (rule inc_le)
    moreover have "i \<le> i + 1" using \<open>i < t\<close>
      by unat_arith
    ultimately show ?thesis
      using "1.prems" \<open>i < t\<close> "1.IH" by (subst scan.simps) auto
  qed
qed

lemma scan_none:
  "i \<le> e \<Longrightarrow> (\<And>j. i \<le> j \<Longrightarrow> j < e \<Longrightarrow> b j \<noteq> VALUE_TERM_BYTE) \<Longrightarrow> scan b i e = e"
proof (induction b i e rule: scan.induct)
  case (1 b i e)
  show ?case
  proof (cases "i = e")
    case True
    then show ?thesis by (subst scan.simps) simp
  next
    case False
    with "1.prems" have "i < e" by simp
    then have "i + 1 \<le> e" by (rule inc_le)
    moreover have "i \<le> i + 1" using \<open>i < e\<close>
      by unat_arith
    ultimately show ?thesis
      using "1.prems" \<open>i < e\<close> "1.IH" by (subst scan.simps) auto
  qed
qed

lemma read_bytes_numeral [simp]:
  "read_bytes b a (numeral k) = b a # read_bytes b (a + 1) (pred_numeral k)"
  by (simp add: numeral_eq_Suc)

subsection \<open>Running the functions on given arguments\<close>

lemma queue_sizes_fit_int: "unat QUEUE_SIZE < 2 ^ 31 \<and> unat QUEUE_SIZE_page_c < 2 ^ 31"
  by (simp add: QUEUE_SIZE_def QUEUE_SIZE_page_c_def)

lemma size_t_le_1_iff: "w \<le> 1 \<longleftrightarrow> w = 0 \<or> w = 1" for w :: size_t
  by unat_arith

lemma size_t_less_1_iff: "w < 1 \<longleftrightarrow> w = 0" for w :: size_t
  by unat_arith

lemmas eval_defs =
  raw_qpage_push_def raw_qpage_pop_def get_write_idx_spin_def spin_eq spin_exit_def
  QUEUE_MAGIC_MASK_def QUEUE_MAGIC_NUM_def raw_qpage_new_def to_int_def VALUE_TERM_BYTE_def
  slice_bytes_def Let_def size_t_le_1_iff size_t_less_1_iff run_def scan.simps

subsection \<open>What a call does on a well-formed page\<close>

lemma push_ok:
  assumes "unat (write_index (write_idx_lock p)) + unat n + 1 < unat qs"
    and "unat n \<le> length bs"
  shows "raw_qpage_push qs p bs n =
    Inr (to_int (n + 1),
      p\<lparr>write_idx_lock := write_idx_lock p + n + 1,
        buf := (memcpy (buf p) (write_index (write_idx_lock p)) (take (unat n) bs))
                 (write_index (write_idx_lock p) + n := VALUE_TERM_BYTE)\<rparr>)"
proof -
  let ?s = "write_index (write_idx_lock p)"
  have "unat (?s + n) = unat ?s + unat n"
    using assms(1) by unat_arith
  moreover have "unat (qs - 1) = unat qs - 1"
    using assms(1) by unat_arith
  ultimately have "\<not> qs - 1 \<le> ?s + n"
    using assms(1) by (simp add: word_le_nat_alt)
  then show ?thesis
    using assms by (simp add: raw_qpage_push_def Let_def write_index_def)
qed

lemma get_write_idx_spin_quiet:
  "writer_count (write_idx_lock p) = 0 \<Longrightarrow>
   get_write_idx_spin qs p c =
     Some (if last_safe_write_idx p \<le> c
           then (if qs < write_idx_lock p then qs else write_idx_lock p,
                 p\<lparr>last_safe_write_idx := write_idx_lock p\<rparr>)
           else (if qs < last_safe_write_idx p then qs else last_safe_write_idx p, p))"
  by (simp add: get_write_idx_spin_def spin_eq spin_exit_iff Let_def)

lemma pop_found:
  assumes wc: "writer_count (write_idx_lock p) = 0"
    and safe: "last_safe_write_idx p \<le> c"
    and ct: "c \<le> t" and te: "t < write_idx_lock p" and eq: "write_idx_lock p \<le> qs"
    and fst_byte: "buf p c \<noteq> 0xFD"
    and term_byte: "buf p t = VALUE_TERM_BYTE"
    and body: "\<And>j. c \<le> j \<Longrightarrow> j < t \<Longrightarrow> buf p j \<noteq> VALUE_TERM_BYTE"
  shows "raw_qpage_pop qs p c =
    Some (Inr (\<lparr>len = t - c, ptr = Some c, read_status = READ_SUCCESS\<rparr>,
               p\<lparr>last_safe_write_idx := write_idx_lock p\<rparr>))"
proof -
  have g: "get_write_idx_spin qs p c =
      Some (write_idx_lock p, p\<lparr>last_safe_write_idx := write_idx_lock p\<rparr>)"
    using wc safe eq by (simp add: get_write_idx_spin_quiet not_less [symmetric])
  have sc: "scan (buf p) c (write_idx_lock p) = t"
    using ct te term_byte body by (rule scan_first)
  have "c < write_idx_lock p" "c < qs" "t < qs"
    using ct te eq by auto
  then show ?thesis
    using g sc fst_byte term_byte by (simp add: raw_qpage_pop_def Let_def)
qed

lemma read_bytes_eq_map: "read_bytes b a n = map (\<lambda>k. b (a + of_nat k)) [0 ..< n]"
proof (induction n arbitrary: a)
  case 0
  then show ?case by simp
next
  case (Suc n)
  have "[0 ..< Suc n] = 0 # map Suc [0 ..< n]"
    by (simp add: upt_conv_Cons map_Suc_upt del: upt_Suc)
  then have "map (\<lambda>k. b (a + of_nat k)) [0 ..< Suc n] =
        b a # map (\<lambda>k. b (a + 1 + of_nat k)) [0 ..< n]"
    by (simp add: ac_simps del: upt_Suc)
  then show ?case using Suc.IH [of "a + 1"] by simp
qed

lemma read_bytes_memcpy:
  assumes "unat s + length m < 2 ^ 64"
  shows "read_bytes ((memcpy b s m)(s + of_nat (length m) := x)) s (length m) = m"
proof -
  have "map (\<lambda>k. ((memcpy b s m)(s + of_nat (length m) := x)) (s + of_nat k)) [0 ..< length m]
      = map (\<lambda>k. m ! k) [0 ..< length m]"
  proof (rule map_cong [OF refl])
    fix k assume "k \<in> set [0 ..< length m]"
    then have k: "k < length m" by simp
    have u: "unat (s + of_nat k :: size_t) = unat s + k"
      using assms k by (simp add: unat_word_ariths unat_of_nat)
    have u': "unat (s + of_nat (length m) :: size_t) = unat s + length m"
      using assms by (simp add: unat_word_ariths unat_of_nat)
    have "s + of_nat k \<noteq> s + of_nat (length m)"
      using u u' k by (metis add_left_cancel nat_neq_iff)
    then show "((memcpy b s m)(s + of_nat (length m) := x)) (s + of_nat k) = m ! k"
      using assms k u by (simp add: memcpy_apply)
  qed
  then show ?thesis by (simp add: read_bytes_eq_map map_nth)
qed

lemma to_int_of_nat: "k < 2 ^ 31 \<Longrightarrow> to_int (of_nat k) = int k"
proof -
  assume k: "k < 2 ^ 31"
  have "unat (ucast (of_nat k :: size_t) :: 32 word) = unat (of_nat k :: 32 word)"
    using k by (simp add: unsigned_ucast_eq unsigned_of_nat take_bit_nat_eq_self)
  then have "(ucast (of_nat k :: size_t) :: 32 word) = of_nat k"
    by (simp only: word_unat_eq_iff)
  moreover have "sint (of_nat k :: 32 word) = int k"
    using k by (simp add: signed_of_nat signed_take_bit_int_eq_self)
  ultimately show ?thesis
    by (simp add: to_int_def)
qed

lemma writer_count_0_iff: "writer_count w = 0 \<longleftrightarrow> unat w < 2 ^ 56"
proof -
  have "writer_count w = 0 \<longleftrightarrow> unat (drop_bit 56 w) = 0"
    by (simp add: writer_count_def unat_0_iff)
  also have "\<dots> \<longleftrightarrow> unat w div 2 ^ 56 = 0"
    by (simp only: unat_drop_bit_eq) (simp add: drop_bit_eq_div)
  also have "\<dots> \<longleftrightarrow> unat w < 2 ^ 56"
    by (simp add: div_eq_0_iff)
  finally show ?thesis .
qed

subsection \<open>The branches of push and pop, in both variants\<close>

lemma spin_returns_iff:
  "spin p = Some e \<longleftrightarrow> writer_count (write_idx_lock p) = 0 \<and> e = write_idx_lock p"
  by (auto simp: spin_eq spin_exit_iff)

lemma spin_exit_page_c_always: "spin_exit_page_c e"
  by (simp add: spin_exit_page_c_def lnot_def QUEUE_MAGIC_MASK_def QUEUE_MAGIC_NUM_def)

lemma spin_page_c_eq: "spin_page_c p = Some (write_idx_lock p)"
  by (subst spin_page_c.simps) (simp add: spin_exit_page_c_always)

lemmas eval_defs_page_c =
  raw_qpage_push_page_c_def raw_qpage_pop_page_c_def get_write_idx_spin_page_c_def
  spin_page_c_eq cs0_def run_page_c_def

lemma push_full:
  "qs - 1 \<le> write_index (write_idx_lock p) + n \<Longrightarrow>
   raw_qpage_push qs p bs n =
     Inr (WRITE_PAGE_FULL,
       p\<lparr>write_idx_lock := write_idx_lock p + n + 1,
         buf := (if write_index (write_idx_lock p) \<le> qs - 1
                 then (buf p)(write_index (write_idx_lock p) := 0xFD) else buf p)\<rparr>)"
  by (simp add: raw_qpage_push_def Let_def write_index_def)

lemma push_full_page_c:
  "qs - 1 \<le> write_index (write_idx_lock p) + n \<Longrightarrow>
   raw_qpage_push_page_c qs p bs n =
     Inr (WRITE_PAGE_FULL,
       p\<lparr>write_idx_lock := write_idx_lock p + n + 1,
         buf := (if write_index (write_idx_lock p) < qs - 1
                 then (buf p)(write_index (write_idx_lock p) := 0xFD) else buf p)\<rparr>)"
  by (simp add: raw_qpage_push_page_c_def Let_def write_index_def)

lemma pop_empty:
  assumes "writer_count (write_idx_lock p) = 0"
    and "last_safe_write_idx p \<le> c" and "write_idx_lock p \<le> c"
  shows "raw_qpage_pop qs p c =
    Some (Inr (\<lparr>len = 0, ptr = None, read_status = READ_EMPTY\<rparr>,
               p\<lparr>last_safe_write_idx := write_idx_lock p\<rparr>))"
  using assms by (auto simp: raw_qpage_pop_def get_write_idx_spin_quiet)

lemma get_write_idx_spin_page_c_eq:
  "get_write_idx_spin_page_c qs p c =
     Some (if last_safe_write_idx p \<le> c
           then (if qs < write_idx_lock p then qs else write_idx_lock p,
                 p\<lparr>last_safe_write_idx := write_idx_lock p\<rparr>)
           else (if qs < last_safe_write_idx p then qs else last_safe_write_idx p, p))"
  by (simp add: get_write_idx_spin_page_c_def spin_page_c_eq Let_def)

lemma pop_empty_page_c:
  assumes "last_safe_write_idx p \<le> c" and "write_idx_lock p = c" and "c \<le> qs"
  shows "raw_qpage_pop_page_c qs p c =
    Some (Inr (\<lparr>len = 0, ptr = None, read_status = READ_EMPTY\<rparr>,
               p\<lparr>last_safe_write_idx := write_idx_lock p\<rparr>))"
  using assms by (auto simp: raw_qpage_pop_page_c_def get_write_idx_spin_page_c_eq)

lemma pop_error:
  assumes wc: "writer_count (write_idx_lock p) = 0"
    and safe: "last_safe_write_idx p \<le> c"
    and ce: "c < write_idx_lock p" and eq: "write_idx_lock p < qs"
    and fst_byte: "buf p c \<noteq> 0xFD"
    and body: "\<And>j. c \<le> j \<Longrightarrow> j \<le> write_idx_lock p \<Longrightarrow> buf p j \<noteq> VALUE_TERM_BYTE"
  shows "raw_qpage_pop qs p c =
    Some (Inr (\<lparr>len = 0, ptr = None, read_status = READ_ERROR\<rparr>,
               p\<lparr>last_safe_write_idx := write_idx_lock p\<rparr>))"
proof -
  have "\<not> qs < write_idx_lock p"
    using eq by simp
  then have g: "get_write_idx_spin qs p c =
      Some (write_idx_lock p, p\<lparr>last_safe_write_idx := write_idx_lock p\<rparr>)"
    using wc safe by (simp add: get_write_idx_spin_quiet)
  have sc: "scan (buf p) c (write_idx_lock p) = write_idx_lock p"
    using ce body by (intro scan_none) auto
  have "c < qs" using ce eq by auto
  moreover have "buf p (write_idx_lock p) \<noteq> VALUE_TERM_BYTE"
    using body [of "write_idx_lock p"] ce by simp
  moreover have "\<not> write_idx_lock p \<le> c"
    using ce by simp
  ultimately show ?thesis
    using g sc fst_byte eq by (simp add: raw_qpage_pop_def Let_def)
qed

lemma pop_page_c_never_errors:
  "raw_qpage_pop_page_c qs p c = Some (Inr (cs, p')) \<Longrightarrow> read_status cs \<noteq> READ_ERROR_page_c"
  by (auto simp: raw_qpage_pop_page_c_def Let_def READ_ERROR_page_c_def READ_EMPTY_def
      READ_FINISHED_def READ_SUCCESS_def split: option.splits if_splits)

lemma page_full_scenario_part_000:
  "map fst (run 16 raw_qpage_new
      [Push [1, 2, 3, 4, 5, 6, 7, 8, 9, 10, 11, 12, 13, 14] 14, Push [1, 2, 3, 4] 4, Pop 15]) =
     [Pushed 15, Pushed WRITE_PAGE_FULL,
      Popped \<lparr>len = 0, ptr = None, read_status = READ_FINISHED\<rparr> []]
   \<and> buf (snd (last (run 16 raw_qpage_new
        [Push [1, 2, 3, 4, 5, 6, 7, 8, 9, 10, 11, 12, 13, 14] 14, Push [1, 2, 3, 4] 4]))) 15 = 0xFD"
  by (simp add: eval_defs WRITE_PAGE_FULL_def)

subsection \<open>The fields of the state word under a reservation\<close>

lemma unat_write_index_eq: "unat (write_index w) = unat w mod 2 ^ 56"
proof -
  have "write_index w = take_bit 56 w"
    by (simp add: write_index_def magic_mask_eq_mask take_bit_eq_mask)
  then have "unat (write_index w) = take_bit 56 (unat w)"
    by (simp only: unsigned_take_bit_eq)
  then show ?thesis
    by (simp add: take_bit_eq_mod)
qed

lemma unat_writer_count_eq: "unat (writer_count w) = unat w div 2 ^ 56"
  unfolding writer_count_def
  by (simp only: unat_drop_bit_eq) (simp add: drop_bit_eq_div)

lemma state_advance:
  assumes "unat (write_index w) + unat n + 1 < 2 ^ 56"
  shows "unat (write_index (w + n + 1)) = unat (write_index w) + unat n + 1"
    and "writer_count (w + n + 1) = writer_count w"
proof -
  define q where "q = unat w div 2 ^ 56"
  define r where "r = unat w mod 2 ^ 56"
  have w: "unat w = q * 2 ^ 56 + r"
    by (simp add: q_def r_def)
  have "unat w < 2 ^ LENGTH(64)"
    by (rule unsigned_less)
  then have q: "q \<le> 2 ^ 8 - 1"
    by (simp add: q_def less_mult_imp_div_less)
  have r: "r + unat n + 1 < 2 ^ 56"
    using assms by (simp add: unat_write_index_eq r_def)
  have "q * 2 ^ 56 \<le> (2 ^ 8 - 1) * 2 ^ 56"
    using q by (rule mult_right_mono) simp
  then have "unat w + unat n + 1 < 2 ^ 64"
    using w r by simp
  then have "unat (w + n + 1) = unat w + unat n + 1"
    by (simp add: unat_word_ariths)
  then have u: "unat (w + n + 1) = q * 2 ^ 56 + (r + unat n + 1)"
    using w by simp
  have m: "unat (w + n + 1) mod 2 ^ 56 = r + unat n + 1"
    using r by (simp only: u mod_mult_self3 mod_less)
  have d: "unat (w + n + 1) div 2 ^ 56 = q"
    using r by (simp only: u) simp
  show "unat (write_index (w + n + 1)) = unat (write_index w) + unat n + 1"
    using m by (simp add: unat_write_index_eq r_def)
  have "unat (writer_count (w + n + 1)) = unat (writer_count w)"
    using d by (simp add: unat_writer_count_eq q_def)
  then show "writer_count (w + n + 1) = writer_count w"
    by (simp only: word_unat_eq_iff)
qed

subsection \<open>What a push returns\<close>

lemma to_int_succ_pos:
  assumes "unat n + 1 < 2 ^ 31"
  shows "to_int (n + 1) = int (unat n) + 1"
proof -
  have "n + 1 = of_nat (unat n + 1)"
    by simp
  then show ?thesis
    using to_int_of_nat [OF assms] by (simp add: ac_simps)
qed

lemma push_returns:
  assumes qs: "unat qs < 2 ^ 31"
    and push: "raw_qpage_push qs p bs n = Inr (r, p')"
  shows "(qs - 1 \<le> write_index (write_idx_lock p) + n \<and> r = WRITE_PAGE_FULL \<and>
          p' = p\<lparr>write_idx_lock := write_idx_lock p + n + 1,
                  buf := (if write_index (write_idx_lock p) \<le> qs - 1
                          then (buf p)(write_index (write_idx_lock p) := 0xFD) else buf p)\<rparr>)
       \<or> (\<not> qs - 1 \<le> write_index (write_idx_lock p) + n \<and> r = int (unat n) + 1 \<and>
          unat (write_index (write_idx_lock p)) + unat n < unat qs \<and>
          p' = p\<lparr>write_idx_lock := write_idx_lock p + n + 1,
                  buf := (memcpy (buf p) (write_index (write_idx_lock p)) (take (unat n) bs))
                           (write_index (write_idx_lock p) + n := VALUE_TERM_BYTE)\<rparr>)"
proof (cases "qs - 1 \<le> write_index (write_idx_lock p) + n")
  case True
  then show ?thesis
    using push push_full [OF True, of bs] by simp
next
  case False
  with push have ok: "\<not> (length bs < unat n \<or> unat qs \<le> unat (write_index (write_idx_lock p)) + unat n)"
    by (auto simp: raw_qpage_push_def Let_def write_index_def split: if_splits)
  then have "unat n + 1 < 2 ^ 31"
    using qs by simp
  then have "to_int (n + 1) = int (unat n) + 1"
    by (rule to_int_succ_pos)
  then show ?thesis
    using push False ok
    by (auto simp: raw_qpage_push_def Let_def write_index_def split: if_splits)
qed

lemma push_page_c_returns:
  assumes qs: "unat qs < 2 ^ 31"
    and push: "raw_qpage_push_page_c qs p bs n = Inr (r, p')"
  shows "(qs - 1 \<le> write_index (write_idx_lock p) + n \<and> r = WRITE_PAGE_FULL \<and>
          p' = p\<lparr>write_idx_lock := write_idx_lock p + n + 1,
                  buf := (if write_index (write_idx_lock p) < qs - 1
                          then (buf p)(write_index (write_idx_lock p) := 0xFD) else buf p)\<rparr>)
       \<or> (\<not> qs - 1 \<le> write_index (write_idx_lock p) + n \<and> r = int (unat n) + 1 \<and>
          unat (write_index (write_idx_lock p)) + unat n < unat qs \<and>
          p' = p\<lparr>write_idx_lock := write_idx_lock p + n + 1,
                  buf := (memcpy (buf p) (write_index (write_idx_lock p)) (take (unat n) bs))
                           (write_index (write_idx_lock p) + n := VALUE_TERM_BYTE)\<rparr>)"
proof (cases "qs - 1 \<le> write_index (write_idx_lock p) + n")
  case True
  then show ?thesis
    using push push_full_page_c [OF True, of bs] by simp
next
  case False
  with push have ok: "\<not> (length bs < unat n \<or> unat qs \<le> unat (write_index (write_idx_lock p)) + unat n)"
    by (auto simp: raw_qpage_push_page_c_def Let_def write_index_def split: if_splits)
  then have "unat n + 1 < 2 ^ 31"
    using qs by simp
  then have "to_int (n + 1) = int (unat n) + 1"
    by (rule to_int_succ_pos)
  then show ?thesis
    using push False ok
    by (auto simp: raw_qpage_push_page_c_def Let_def write_index_def split: if_splits)
qed

subsection \<open>One call of a sequence, and sealed pages\<close>

lemma pop_returns:
  assumes "raw_qpage_pop qs p c = Some (Inr (cs, p'))"
  shows "write_idx_lock p' = write_idx_lock p \<and> buf p' = buf p \<and> is_ready p' = is_ready p
    \<and> (last_safe_write_idx p' = last_safe_write_idx p
       \<or> writer_count (write_idx_lock p) = 0 \<and> last_safe_write_idx p' = write_idx_lock p)"
  using assms
  by (auto simp: raw_qpage_pop_def get_write_idx_spin_def spin_eq spin_exit_iff Let_def
      split: if_splits option.splits)

lemma pop_page_c_returns:
  assumes "raw_qpage_pop_page_c qs p c = Some (Inr (cs, p'))"
  shows "write_idx_lock p' = write_idx_lock p \<and> buf p' = buf p \<and> is_ready p' = is_ready p
    \<and> (last_safe_write_idx p' = last_safe_write_idx p
       \<or> last_safe_write_idx p' = write_idx_lock p)"
  using assms
  by (auto simp: raw_qpage_pop_page_c_def get_write_idx_spin_page_c_def spin_page_c_eq Let_def
      split: if_splits option.splits)

lemma step_Push:
  assumes qs: "unat qs < 2 ^ 31" and st: "step qs p (Push bs n) = Some (x, p')"
  shows "(\<exists>r. x = Pushed r \<and>
            (r = WRITE_PAGE_FULL \<or> unat (write_index (write_idx_lock p)) + unat n < unat qs))
       \<and> write_idx_lock p' = write_idx_lock p + n + 1
       \<and> last_safe_write_idx p' = last_safe_write_idx p"
proof -
  from st obtain r where r: "raw_qpage_push qs p bs n = Inr (r, p')" and x: "x = Pushed r"
    by (auto split: sum.splits)
  show ?thesis
    using push_returns [OF qs r] x by auto
qed

lemma step_page_c_Push:
  assumes qs: "unat qs < 2 ^ 31" and st: "step_page_c qs p (Push bs n) = Some (x, p')"
  shows "(\<exists>r. x = Pushed r \<and>
            (r = WRITE_PAGE_FULL \<or> unat (write_index (write_idx_lock p)) + unat n < unat qs))
       \<and> write_idx_lock p' = write_idx_lock p + n + 1
       \<and> last_safe_write_idx p' = last_safe_write_idx p"
proof -
  from st obtain r where r: "raw_qpage_push_page_c qs p bs n = Inr (r, p')" and x: "x = Pushed r"
    by (auto split: sum.splits)
  show ?thesis
    using push_page_c_returns [OF qs r] x by auto
qed

lemma step_Pop:
  assumes st: "step qs p (Pop c) = Some (x, p')"
  shows "(\<exists>cs b. x = Popped cs b) \<and> write_idx_lock p' = write_idx_lock p
       \<and> (last_safe_write_idx p' = last_safe_write_idx p
          \<or> last_safe_write_idx p' = write_idx_lock p)"
proof -
  from st obtain cs where r: "raw_qpage_pop qs p c = Some (Inr (cs, p'))"
    and x: "x = Popped cs (slice_bytes p' cs)"
    by (auto split: option.splits sum.splits)
  show ?thesis
    using pop_returns [OF r] x by auto
qed

lemma step_page_c_Pop:
  assumes st: "step_page_c qs p (Pop c) = Some (x, p')"
  shows "(\<exists>cs b. x = Popped cs b) \<and> write_idx_lock p' = write_idx_lock p
       \<and> (last_safe_write_idx p' = last_safe_write_idx p
          \<or> last_safe_write_idx p' = write_idx_lock p)"
proof -
  from st obtain cs where r: "raw_qpage_pop_page_c qs p c = Some (Inr (cs, p'))"
    and x: "x = Popped cs (slice_bytes p' cs)"
    by (auto split: option.splits sum.splits)
  show ?thesis
    using pop_page_c_returns [OF r] x by auto
qed

lemma stopped_at_Nil [simp]: "stopped_at (x # xs) [] = Some x" "stopped_at [] tr = None"
  by (simp_all add: stopped_at_def)

lemma stopped_at_Cons [simp]: "stopped_at (x # xs) (y # tr) = stopped_at xs tr"
  by (simp add: stopped_at_def)

lemma reserved_pushes: "reserved (filter is_push ops) = reserved ops"
  by (induction ops rule: reserved.induct) simp_all

lemma run_with_sealed:
  assumes push: "\<And>p bs n x p'. st p (Push bs n) = Some (x, p') \<Longrightarrow>
       (\<exists>r. x = Pushed r \<and>
            (r = WRITE_PAGE_FULL \<or> unat (write_index (write_idx_lock p)) + unat n < unat qs))
       \<and> write_idx_lock p' = write_idx_lock p + n + 1"
    and pop: "\<And>p c x p'. st p (Pop c) = Some (x, p') \<Longrightarrow>
       (\<exists>cs b. x = Popped cs b) \<and> write_idx_lock p' = write_idx_lock p"
    and total: "\<And>p bs n. unat qs \<le> unat (write_index (write_idx_lock p)) \<Longrightarrow>
       unat (write_index (write_idx_lock p)) + unat n + 1 < 2 ^ 56 \<Longrightarrow>
       st p (Push bs n) \<noteq> None"
  shows "unat qs \<le> unat (write_index (write_idx_lock p)) \<Longrightarrow>
         unat (write_index (write_idx_lock p)) + reserved ops < 2 ^ 56 \<Longrightarrow>
         (\<forall>bs n. stopped_at ops (run_with st p ops) \<noteq> Some (Push bs n))
         \<and> set (pushed (run_with st p ops)) \<subseteq> {WRITE_PAGE_FULL}
         \<and> list_all (\<lambda>q. unat qs \<le> unat (write_index (write_idx_lock q)))
              (p # map snd (run_with st p ops))
         \<and> (list_all is_push ops \<longrightarrow>
              pushed (run_with st p ops) = replicate (length ops) WRITE_PAGE_FULL)"
proof (induction ops arbitrary: p)
  case Nil
  then show ?case by simp
next
  case (Cons x xs)
  show ?case
  proof (cases "st p x")
    case None
    have "\<exists>c. x = Pop c"
    proof (cases x)
      case (Push bs n)
      with Cons.prems(2) have "unat (write_index (write_idx_lock p)) + unat n + 1 < 2 ^ 56"
        by simp
      then have "st p (Push bs n) \<noteq> None"
        using Cons.prems(1) by (intro total)
      with None Push show ?thesis by simp
    next
      case (Pop c)
      then show ?thesis by simp
    qed
    with None Cons.prems(1) show ?thesis by auto
  next
    case (Some yp)
    obtain y p' where yp: "yp = (y, p')" by (cases yp)
    have next_ok: "unat qs \<le> unat (write_index (write_idx_lock p')) \<and>
        unat (write_index (write_idx_lock p')) + reserved xs < 2 ^ 56 \<and>
        (is_push x \<longrightarrow> y = Pushed WRITE_PAGE_FULL) \<and>
        set (pushed [(y, p')]) \<subseteq> {WRITE_PAGE_FULL}"
    proof (cases x)
      case (Push bs n)
      with Cons.prems(2) have fit: "unat (write_index (write_idx_lock p)) + unat n + 1 < 2 ^ 56"
        by simp
      obtain r where y: "y = Pushed r"
        and r: "r = WRITE_PAGE_FULL \<or> unat (write_index (write_idx_lock p)) + unat n < unat qs"
        and w: "write_idx_lock p' = write_idx_lock p + n + 1"
        using push [of p bs n y p'] Some yp Push by auto
      have "unat (write_index (write_idx_lock p')) =
          unat (write_index (write_idx_lock p)) + unat n + 1"
        using state_advance(1) [OF fit] w by simp
      moreover have "r = WRITE_PAGE_FULL"
        using r Cons.prems(1) by auto
      ultimately show ?thesis
        using Cons.prems(1,2) Push y by simp
    next
      case (Pop c)
      obtain cs b where "y = Popped cs b" and "write_idx_lock p' = write_idx_lock p"
        using pop [of p c y p'] Some yp Pop by auto
      then show ?thesis
        using Cons.prems(1,2) Pop by simp
    qed
    then have "(\<forall>bs n. stopped_at xs (run_with st p' xs) \<noteq> Some (Push bs n))
         \<and> set (pushed (run_with st p' xs)) \<subseteq> {WRITE_PAGE_FULL}
         \<and> list_all (\<lambda>q. unat qs \<le> unat (write_index (write_idx_lock q)))
              (p' # map snd (run_with st p' xs))
         \<and> (list_all is_push xs \<longrightarrow>
              pushed (run_with st p' xs) = replicate (length xs) WRITE_PAGE_FULL)"
      by (intro Cons.IH) simp_all
    moreover have "pushed ((y, p') # run_with st p' xs) =
        pushed [(y, p')] @ pushed (run_with st p' xs)"
      by (cases y) simp_all
    ultimately show ?thesis
      using Cons.prems(1) next_ok Some yp by auto
  qed
qed

lemma full_push_seals:
  assumes qs: "unat qs < 2 ^ 31"
    and full: "raw_qpage_push qs p bs n = Inr (WRITE_PAGE_FULL, p1) \<or>
               raw_qpage_push_page_c qs p bs n = Inr (WRITE_PAGE_FULL, p1)"
    and fit: "unat (write_index (write_idx_lock p)) + unat n + 1 < 2 ^ 56"
  shows "unat qs \<le> unat (write_index (write_idx_lock p1))"
    and "unat (write_index (write_idx_lock p1)) =
           unat (write_index (write_idx_lock p)) + unat n + 1"
proof -
  let ?s = "write_index (write_idx_lock p)"
  have "int (unat n) + 1 \<noteq> 0"
    by linarith
  then have nz: "int (unat n) + 1 \<noteq> WRITE_PAGE_FULL"
    by (simp only: WRITE_PAGE_FULL_def) simp
  from full have br: "qs - 1 \<le> ?s + n" and w: "write_idx_lock p1 = write_idx_lock p + n + 1"
    using push_returns [OF qs, of p bs n WRITE_PAGE_FULL p1]
      push_page_c_returns [OF qs, of p bs n WRITE_PAGE_FULL p1] nz
    by auto
  show adv: "unat (write_index (write_idx_lock p1)) = unat ?s + unat n + 1"
    using state_advance(1) [OF fit] w by simp
  have "unat (?s + n) = unat ?s + unat n"
    using fit by (simp add: unat_word_ariths)
  with br have le: "unat (qs - 1) \<le> unat ?s + unat n"
    by (simp add: word_le_nat_alt)
  show "unat qs \<le> unat (write_index (write_idx_lock p1))"
  proof (cases "qs = 0")
    case True
    then show ?thesis by simp
  next
    case False
    then have "unat (qs - 1) = unat qs - 1"
      by (simp add: unat_minus_one)
    with le adv show ?thesis by simp
  qed
qed

lemma sealed_push_is_refused:
  assumes "unat qs \<le> unat (write_index (write_idx_lock q))"
    and "unat (write_index (write_idx_lock q)) + unat n + 1 < 2 ^ 56"
    and "qs \<noteq> 0"
  shows "\<exists>q'. raw_qpage_push qs q bs n = Inr (WRITE_PAGE_FULL, q')"
    and "\<exists>q'. raw_qpage_push_page_c qs q bs n = Inr (WRITE_PAGE_FULL, q')"
proof -
  let ?s = "write_index (write_idx_lock q)"
  have "unat (?s + n) = unat ?s + unat n"
    using assms(2) by (simp add: unat_word_ariths)
  moreover have "unat (qs - 1) \<le> unat qs"
    using assms(3) by (simp add: unat_minus_one)
  ultimately have "qs - 1 \<le> ?s + n"
    using assms(1) by (simp add: word_le_nat_alt)
  then show "\<exists>q'. raw_qpage_push qs q bs n = Inr (WRITE_PAGE_FULL, q')"
    and "\<exists>q'. raw_qpage_push_page_c qs q bs n = Inr (WRITE_PAGE_FULL, q')"
    by (simp_all add: push_full push_full_page_c)
qed

lemma full_push_arena_nonempty:
  assumes qs: "unat qs < 2 ^ 31"
    and full: "raw_qpage_push qs p bs n = Inr (WRITE_PAGE_FULL, p1) \<or>
               raw_qpage_push_page_c qs p bs n = Inr (WRITE_PAGE_FULL, p1)"
    and fit: "unat (write_index (write_idx_lock p)) + unat n + 1 < 2 ^ 56"
  shows "qs \<noteq> 0"
proof
  assume z: "qs = 0"
  let ?s = "write_index (write_idx_lock p)"
  have "int (unat n) + 1 \<noteq> 0"
    by linarith
  then have nz: "int (unat n) + 1 \<noteq> WRITE_PAGE_FULL"
    by (simp only: WRITE_PAGE_FULL_def) simp
  from full have br: "qs - 1 \<le> ?s + n"
    using push_returns [OF qs, of p bs n WRITE_PAGE_FULL p1]
      push_page_c_returns [OF qs, of p bs n WRITE_PAGE_FULL p1] nz
    by auto
  have u: "unat (?s + n) = unat ?s + unat n"
    using fit by (simp add: unat_word_ariths)
  from br z have "unat (- 1 :: size_t) \<le> unat (?s + n)"
    by (simp add: word_le_nat_alt)
  moreover have "unat (- 1 :: size_t) = 2 ^ 64 - 1"
    by (simp add: unsigned_minus_1_eq_mask mask_eq_exp_minus_1)
  ultimately have "2 ^ 64 - 1 \<le> unat ?s + unat n"
    using u by simp
  with fit show False
    by simp
qed

lemma step_Push_total:
  assumes "unat qs \<le> unat (write_index (write_idx_lock q))"
    and "unat (write_index (write_idx_lock q)) + unat n + 1 < 2 ^ 56"
    and "qs \<noteq> 0"
  shows "step qs q (Push bs n) \<noteq> None" and "step_page_c qs q (Push bs n) \<noteq> None"
  using sealed_push_is_refused [OF assms, of bs] by auto

lemma set_pushed: "r \<in> set (pushed tr) \<longleftrightarrow> (\<exists>q. (Pushed r, q) \<in> set tr)"
  by (induction tr rule: pushed.induct) auto

subsection \<open>The cached safe end along a sequence\<close>


lemma get_write_idx_spin_steps:
  "get_write_idx_spin qs p c =
     (if last_safe_write_idx p \<le> c
      then map_option (\<lambda>e. (if qs < e then qs else e, store_safe_end e p)) (spin p)
      else Some (if qs < last_safe_write_idx p then qs else last_safe_write_idx p, p))"
  by (simp add: get_write_idx_spin_def store_safe_end_def Let_def split: option.splits)








lemma page_c_safe_end_with_writer_in_flight:
  "get_write_idx_spin_page_c QUEUE_SIZE_page_c
      (raw_qpage_new\<lparr>write_idx_lock := QUEUE_MAGIC_NUM + 9\<rparr>) 0 =
     Some (QUEUE_SIZE_page_c,
           raw_qpage_new\<lparr>write_idx_lock := QUEUE_MAGIC_NUM + 9,
             last_safe_write_idx := QUEUE_MAGIC_NUM + 9\<rparr>)
   \<and> write_index (QUEUE_MAGIC_NUM + 9) = 9
   \<and> writer_count (QUEUE_MAGIC_NUM + 9) = 1
   \<and> (9 :: size_t) < QUEUE_MAGIC_NUM + 9
   \<and> get_write_idx_spin QUEUE_SIZE (raw_qpage_new\<lparr>write_idx_lock := QUEUE_MAGIC_NUM + 9\<rparr>) 0 =
       None"
  by (simp add: eval_defs eval_defs_page_c QUEUE_SIZE_def QUEUE_SIZE_page_c_def write_index_def
      writer_count_def drop_bit_eq_div)

section \<open>The claims\<close>

text \<open>
  C1 (as amended). Let \<open>m\<close> be a message that contains no byte \<^verbatim>\<open>0xFF\<close>, does not begin
  with the byte \<^verbatim>\<open>0xFD\<close>, and fits in the arena: \<open>length m + 1\<close> is less than the arena
  size (the test of \<^verbatim>\<open>raw_qpage_push\<close> keeps the last byte of the arena free). Then
  \<^verbatim>\<open>raw_qpage_push\<close> on a fresh page returns \<open>length m + 1\<close>, and the following
  \<^verbatim>\<open>raw_qpage_pop\<close> at cursor 0 returns \<^verbatim>\<open>READ_SUCCESS\<close> with \<open>len = length m\<close>, a pointer to
  offset 0, and the bytes there are \<open>m\<close>. The arena size is an \<^verbatim>\<open>int\<close> constant of the
  source, hence below \<open>2 ^ 31\<close>.
\<close>

theorem push_then_pop_returns_message:
  assumes qs: "unat qs < 2 ^ 31"
    and noterm: "VALUE_TERM_BYTE \<notin> set m"
    and nofd: "m = [] \<or> hd m \<noteq> 0xFD"
    and fits: "length m + 1 < unat qs"
  shows "map fst (run qs raw_qpage_new [Push m (of_nat (length m)), Pop 0]) =
     [Pushed (int (length m) + 1),
      Popped \<lparr>len = of_nat (length m), ptr = Some 0, read_status = READ_SUCCESS\<rparr> m]"
proof -
  let ?n = "of_nat (length m) :: size_t"
  let ?b = "(memcpy (\<lambda>i. 0) 0 m)(?n := VALUE_TERM_BYTE)"
  let ?p = "raw_qpage_new\<lparr>write_idx_lock := ?n + 1, buf := ?b\<rparr>"
  have un: "unat ?n = length m"
    using qs fits by (simp add: unat_of_nat)
  have un1: "unat (?n + 1) = length m + 1"
    using qs fits un by (simp add: unat_word_ariths)
  have wi0: "write_index (write_idx_lock raw_qpage_new) = 0"
    by (simp add: raw_qpage_new_def write_index_def)
  have push: "raw_qpage_push qs raw_qpage_new m ?n = Inr (int (length m) + 1, ?p)"
  proof -
    have "to_int (?n + 1) = int (length m) + 1"
      using to_int_of_nat [of "length m + 1"] qs fits by (simp add: ac_simps)
    moreover have "unat (write_index (write_idx_lock raw_qpage_new)) + unat ?n + 1 < unat qs"
      using fits un wi0 by simp
    ultimately show ?thesis
      using push_ok [of raw_qpage_new ?n qs m] un wi0
      by (simp add: raw_qpage_new_def)
  qed
  have inside: "?b j = m ! unat j" if "j < ?n" for j
  proof -
    from that have "unat j < length m"
      using un by (simp add: word_less_nat_alt)
    moreover have "j \<noteq> ?n" using that by simp
    ultimately show ?thesis
      using qs fits by (simp add: memcpy_apply)
  qed
  have pop: "raw_qpage_pop qs ?p 0 =
    Some (Inr (\<lparr>len = ?n - 0, ptr = Some 0, read_status = READ_SUCCESS\<rparr>,
               ?p\<lparr>last_safe_write_idx := write_idx_lock ?p\<rparr>))"
  proof (rule pop_found)
    show "writer_count (write_idx_lock ?p) = 0"
      using un1 qs fits by (simp add: writer_count_0_iff)
    show "last_safe_write_idx ?p \<le> 0"
      by (simp add: raw_qpage_new_def)
    show "(0::size_t) \<le> ?n" by simp
    show "?n < write_idx_lock ?p"
      using un un1 by (simp add: word_less_nat_alt)
    show "write_idx_lock ?p \<le> qs"
      using un1 fits by (simp add: word_le_nat_alt)
    show "buf ?p 0 \<noteq> 0xFD"
    proof (cases "m = []")
      case True
      then show ?thesis by (simp add: VALUE_TERM_BYTE_def)
    next
      case False
      then have "0 < ?n" using un by (simp add: word_less_nat_alt)
      then have "?b 0 = m ! 0" using inside [of 0] by simp
      with False nofd show ?thesis by (simp add: hd_conv_nth)
    qed
    show "buf ?p ?n = VALUE_TERM_BYTE" by simp
    show "buf ?p j \<noteq> VALUE_TERM_BYTE" if "0 \<le> j" "j < ?n" for j
    proof -
      have "unat j < length m" using that un by (simp add: word_less_nat_alt)
      then have "m ! unat j \<in> set m" by simp
      with noterm inside [OF that(2)] show ?thesis by auto
    qed
  qed
  have bytes: "read_bytes ?b 0 (length m) = m"
    using read_bytes_memcpy [of 0 m "\<lambda>i. 0" VALUE_TERM_BYTE] qs fits by simp
  show ?thesis
    using push pop bytes un by (simp add: slice_bytes_def run_def)
qed

theorem push_then_pop_returns_message_witness:
  "unat QUEUE_SIZE < 2 ^ 31
   \<and> VALUE_TERM_BYTE \<notin> set [0x61, 0x62, 0x63]
   \<and> hd [0x61, 0x62, 0x63 :: byte] \<noteq> 0xFD
   \<and> length [0x61, 0x62, 0x63 :: byte] + 1 < unat QUEUE_SIZE
   \<and> map fst (run QUEUE_SIZE raw_qpage_new [Push [0x61, 0x62, 0x63] 3, Pop 0]) =
       [Pushed 4,
        Popped \<lparr>len = 3, ptr = Some 0, read_status = READ_SUCCESS\<rparr> [0x61, 0x62, 0x63]]"
  using push_then_pop_returns_message [of QUEUE_SIZE "[0x61, 0x62, 0x63]"]
  by (simp add: QUEUE_SIZE_def VALUE_TERM_BYTE_def)

text \<open>
  C1 as stated fails for a message that begins with \<^verbatim>\<open>0xFD\<close>: the one-byte message
  \<^verbatim>\<open>FD\<close> contains no \<^verbatim>\<open>0xFF\<close> and fits; the push returns 2, and the pop at cursor 0
  takes the first byte for the page-full sentinel and returns \<^verbatim>\<open>READ_FINISHED\<close> with
  length 0 and a null pointer.
\<close>

theorem message_starting_with_sentinel_pops_finished:
  "map fst (run QUEUE_SIZE raw_qpage_new [Push [0xFD] 1, Pop 0]) =
     [Pushed 2, Popped \<lparr>len = 0, ptr = None, read_status = READ_FINISHED\<rparr> []]
   \<and> VALUE_TERM_BYTE \<notin> set [0xFD]
   \<and> READ_FINISHED \<noteq> READ_SUCCESS"
  by (simp add: eval_defs QUEUE_SIZE_def READ_FINISHED_def READ_SUCCESS_def)

text \<open>
  C2. The claim: the test that ends the spin loop holds of a loaded state word if and
  only if the writer count, the high 8 bits of the word, is zero. That is so for
  \<^verbatim>\<open>_get_write_idx_spin\<close> of part\_000, which tests \<^verbatim>\<open>(end & ~QUEUE_MAGIC_MASK) == 0\<close>
  (\<open>spin_exit_iff\<close>, \<open>spin_returns_iff\<close>). \<^verbatim>\<open>_get_write_idx_spin\<close> of page.c and
  \<^verbatim>\<open>raw_qpage_pop_fast_read\<close> of both files test \<^verbatim>\<open>(end & !QUEUE_MAGIC_MASK) == 0\<close>, which
  holds of every word. The state word \<open>QUEUE_MAGIC_NUM + 5\<close> is what a reader loads
  while one writer is between the \<^verbatim>\<open>fetch_add\<close> and the \<^verbatim>\<open>fetch_sub\<close> of a push of 4
  bytes on a fresh page: its writer count is 1, the test holds, the loop of page.c
  returns the word, and \<^verbatim>\<open>_get_write_idx_spin\<close> of page.c stores the whole word to
  \<^verbatim>\<open>last_safe_write_idx\<close> and returns the arena size as the safe end. The test of
  part\_000 does not hold of that word, and its loop goes on for as long as the word
  stays.
\<close>

theorem logical_not_lets_the_spin_leave_with_a_writer_in_flight:
  "spin_exit_page_c (QUEUE_MAGIC_NUM + 5)
   \<and> writer_count (QUEUE_MAGIC_NUM + 5) = 1
   \<and> spin_page_c (raw_qpage_new\<lparr>write_idx_lock := QUEUE_MAGIC_NUM + 5\<rparr>) =
       Some (QUEUE_MAGIC_NUM + 5)
   \<and> get_write_idx_spin_page_c QUEUE_SIZE_page_c
        (raw_qpage_new\<lparr>write_idx_lock := QUEUE_MAGIC_NUM + 5\<rparr>) 0 =
       Some (QUEUE_SIZE_page_c,
             raw_qpage_new\<lparr>write_idx_lock := QUEUE_MAGIC_NUM + 5,
               last_safe_write_idx := QUEUE_MAGIC_NUM + 5\<rparr>)
   \<and> \<not> spin_exit (QUEUE_MAGIC_NUM + 5)
   \<and> spin (raw_qpage_new\<lparr>write_idx_lock := QUEUE_MAGIC_NUM + 5\<rparr>) = None"
  by (simp add: eval_defs eval_defs_page_c spin_exit_page_c_always writer_count_def
      QUEUE_SIZE_page_c_def drop_bit_eq_div)

text \<open>
  C3. The claim: when the scan from the cursor reaches the safe end without meeting a
  \<^verbatim>\<open>0xFF\<close>, pop returns \<^verbatim>\<open>READ_ERROR\<close> with length 0 and a null pointer. \<^verbatim>\<open>raw_qpage_pop\<close> of
  part\_000 returns so when the byte at the safe end is no \<^verbatim>\<open>0xFF\<close> either
  (\<open>pop_error\<close>). \<^verbatim>\<open>raw_qpage_pop\<close> of page.c assigns the error and then, for want of a
  \<^verbatim>\<open>return\<close>, overwrites it, so that it never returns \<^verbatim>\<open>READ_ERROR\<close>
  (\<open>pop_page_c_never_errors\<close>). On a page whose state word says that 3 bytes are
  committed and whose arena holds no \<^verbatim>\<open>0xFF\<close>, the scan from 0 ends at 3 and page.c
  returns \<^verbatim>\<open>READ_SUCCESS\<close> with length 3 and a pointer to offset 0, where part\_000
  returns \<^verbatim>\<open>READ_ERROR\<close>.
\<close>

theorem page_c_pop_without_terminator_returns_success:
  "scan (buf (raw_qpage_new\<lparr>write_idx_lock := 3\<rparr>)) 0 3 = 3
   \<and> raw_qpage_pop_page_c QUEUE_SIZE_page_c (raw_qpage_new\<lparr>write_idx_lock := 3\<rparr>) 0 =
       Some (Inr (\<lparr>len = 3, ptr = Some 0, read_status = READ_SUCCESS\<rparr>,
                  raw_qpage_new\<lparr>write_idx_lock := 3, last_safe_write_idx := 3\<rparr>))
   \<and> READ_SUCCESS \<noteq> READ_ERROR_page_c
   \<and> raw_qpage_pop QUEUE_SIZE (raw_qpage_new\<lparr>write_idx_lock := 3\<rparr>) 0 =
       Some (Inr (\<lparr>len = 0, ptr = None, read_status = READ_ERROR\<rparr>,
                  raw_qpage_new\<lparr>write_idx_lock := 3, last_safe_write_idx := 3\<rparr>))"
  by (simp add: eval_defs eval_defs_page_c QUEUE_SIZE_def QUEUE_SIZE_page_c_def READ_SUCCESS_def
      READ_ERROR_page_c_def)

text \<open>
  C4. The claim: a push whose reservation does not fit returns \<^verbatim>\<open>WRITE_PAGE_FULL\<close> and
  stamps \<^verbatim>\<open>0xFD\<close> at its start offset whenever that offset lies in the arena; with an
  arena of 16 bytes, after a push of 14 bytes the push of 4 bytes is refused, offset 15
  holds \<^verbatim>\<open>0xFD\<close> and the pop at 15 returns \<^verbatim>\<open>READ_FINISHED\<close>. \<^verbatim>\<open>raw_qpage_push\<close> of part\_000
  does all of that (\<open>push_full\<close>, \<open>page_full_scenario_part_000\<close>). \<^verbatim>\<open>raw_qpage_push\<close> of
  page.c stamps only when \<^verbatim>\<open>start < QUEUE_SIZE - 1\<close> and so leaves out the last offset of
  the arena: with the arena of page.c and the write index at \<^verbatim>\<open>QUEUE_SIZE - 1\<close> the
  refused push changes no byte; in the scenario of 16 bytes the second push returns
  \<^verbatim>\<open>WRITE_PAGE_FULL\<close>, offset 15 stays 0, and the pop at 15 scans to the end of the
  arena and reads \<^verbatim>\<open>p->buf[16]\<close>.
\<close>

theorem page_c_full_push_at_last_offset_leaves_no_sentinel:
  "raw_qpage_push_page_c QUEUE_SIZE_page_c
      (raw_qpage_new\<lparr>write_idx_lock := QUEUE_SIZE_page_c - 1\<rparr>) [1, 2, 3, 4] 4 =
     Inr (WRITE_PAGE_FULL, raw_qpage_new\<lparr>write_idx_lock := QUEUE_SIZE_page_c + 4\<rparr>)
   \<and> map fst (run_page_c 16 raw_qpage_new
        [Push [1, 2, 3, 4, 5, 6, 7, 8, 9, 10, 11, 12, 13, 14] 14, Push [1, 2, 3, 4] 4]) =
       [Pushed 15, Pushed WRITE_PAGE_FULL]
   \<and> buf (snd (last (run_page_c 16 raw_qpage_new
        [Push [1, 2, 3, 4, 5, 6, 7, 8, 9, 10, 11, 12, 13, 14] 14, Push [1, 2, 3, 4] 4]))) 15 = 0
   \<and> raw_qpage_pop_page_c 16 (snd (last (run_page_c 16 raw_qpage_new
        [Push [1, 2, 3, 4, 5, 6, 7, 8, 9, 10, 11, 12, 13, 14] 14, Push [1, 2, 3, 4] 4]))) 15 =
       Some (Inl OutOfBounds)"
  by (simp add: eval_defs eval_defs_page_c QUEUE_SIZE_page_c_def)

text \<open>
  C5 (as amended). Let a push on a page return \<^verbatim>\<open>WRITE_PAGE_FULL\<close>, and let any sequence
  of pushes and pops follow on that page. As long as the write index before the
  refused push plus the bytes reserved by it and by all the pushes that follow
  (\<^verbatim>\<open>len + 1\<close> each) stays below \<open>2 ^ 56\<close>, the range of the index field:
  every push of the sequence returns, and what it returns is \<^verbatim>\<open>WRITE_PAGE_FULL\<close>. The run
  of the sequence never stops at a push (it stops only at a pop that faults or never
  returns); every push in it returned \<^verbatim>\<open>WRITE_PAGE_FULL\<close>; the pushes of the sequence
  taken on their own, without the pops, all return \<^verbatim>\<open>WRITE_PAGE_FULL\<close>; and the write
  index stays at or beyond the arena size after every call, so that the page is never
  writable again. In both variants.
\<close>

theorem sealed_page_refuses_every_push:
  assumes qs: "unat qs < 2 ^ 31"
    and bound: "unat (write_index (write_idx_lock p)) + unat n + 1 + reserved ops < 2 ^ 56"
  shows "(raw_qpage_push qs p bs n = Inr (WRITE_PAGE_FULL, p1) \<longrightarrow>
          (\<forall>bs' n'. stopped_at ops (run qs p1 ops) \<noteq> Some (Push bs' n'))
          \<and> set (pushed (run qs p1 ops)) \<subseteq> {WRITE_PAGE_FULL}
          \<and> pushed (run qs p1 (filter is_push ops)) =
              replicate (length (filter is_push ops)) WRITE_PAGE_FULL
          \<and> list_all (\<lambda>q. unat qs \<le> unat (write_index (write_idx_lock q)))
               (p1 # map snd (run qs p1 ops)))
       \<and> (raw_qpage_push_page_c qs p bs n = Inr (WRITE_PAGE_FULL, p1) \<longrightarrow>
          (\<forall>bs' n'. stopped_at ops (run_page_c qs p1 ops) \<noteq> Some (Push bs' n'))
          \<and> set (pushed (run_page_c qs p1 ops)) \<subseteq> {WRITE_PAGE_FULL}
          \<and> pushed (run_page_c qs p1 (filter is_push ops)) =
              replicate (length (filter is_push ops)) WRITE_PAGE_FULL
          \<and> list_all (\<lambda>q. unat qs \<le> unat (write_index (write_idx_lock q)))
               (p1 # map snd (run_page_c qs p1 ops)))"
proof -
  let ?full = "raw_qpage_push qs p bs n = Inr (WRITE_PAGE_FULL, p1) \<or>
        raw_qpage_push_page_c qs p bs n = Inr (WRITE_PAGE_FULL, p1)"
  let ?sealed = "\<lambda>q. unat qs \<le> unat (write_index (write_idx_lock q))"
  from bound have fit: "unat (write_index (write_idx_lock p)) + unat n + 1 < 2 ^ 56"
    by simp
  have rest: "unat (write_index (write_idx_lock p1)) + reserved ops < 2 ^ 56"
    and sealed: "?sealed p1" and nz: "qs \<noteq> 0" if ?full
    using full_push_seals [OF qs that fit] full_push_arena_nonempty [OF qs that fit] bound
    by simp_all
  have all: "(\<forall>bs' n'. stopped_at xs (run_with (step qs) p1 xs) \<noteq> Some (Push bs' n'))
      \<and> set (pushed (run_with (step qs) p1 xs)) \<subseteq> {WRITE_PAGE_FULL}
      \<and> list_all ?sealed (p1 # map snd (run_with (step qs) p1 xs))
      \<and> (list_all is_push xs \<longrightarrow>
           pushed (run_with (step qs) p1 xs) = replicate (length xs) WRITE_PAGE_FULL)"
    if "raw_qpage_push qs p bs n = Inr (WRITE_PAGE_FULL, p1)" and "reserved xs = reserved ops"
    for xs
  proof (rule run_with_sealed [where qs = qs])
    show "?sealed p1"
      using sealed that(1) by simp
    show "unat (write_index (write_idx_lock p1)) + reserved xs < 2 ^ 56"
      using rest that by simp
    show "step qs q (Push cs m) \<noteq> None"
      if "?sealed q" and "unat (write_index (write_idx_lock q)) + unat m + 1 < 2 ^ 56"
      for q cs m
      using step_Push_total(1) [OF that] nz \<open>raw_qpage_push qs p bs n = Inr (WRITE_PAGE_FULL, p1)\<close>
      by simp
  qed (simp_all add: step_Push [OF qs] step_Pop)
  have all_c: "(\<forall>bs' n'. stopped_at xs (run_with (step_page_c qs) p1 xs) \<noteq> Some (Push bs' n'))
      \<and> set (pushed (run_with (step_page_c qs) p1 xs)) \<subseteq> {WRITE_PAGE_FULL}
      \<and> list_all ?sealed (p1 # map snd (run_with (step_page_c qs) p1 xs))
      \<and> (list_all is_push xs \<longrightarrow>
           pushed (run_with (step_page_c qs) p1 xs) = replicate (length xs) WRITE_PAGE_FULL)"
    if "raw_qpage_push_page_c qs p bs n = Inr (WRITE_PAGE_FULL, p1)"
      and "reserved xs = reserved ops"
    for xs
  proof (rule run_with_sealed [where qs = qs])
    show "?sealed p1"
      using sealed that(1) by simp
    show "unat (write_index (write_idx_lock p1)) + reserved xs < 2 ^ 56"
      using rest that by simp
    show "step_page_c qs q (Push cs m) \<noteq> None"
      if "?sealed q" and "unat (write_index (write_idx_lock q)) + unat m + 1 < 2 ^ 56"
      for q cs m
      using step_Push_total(2) [OF that] nz
        \<open>raw_qpage_push_page_c qs p bs n = Inr (WRITE_PAGE_FULL, p1)\<close>
      by simp
  qed (simp_all add: step_page_c_Push [OF qs] step_page_c_Pop)
  have pushes: "list_all is_push (filter is_push ops)"
    by (simp add: list_all_iff)
  show ?thesis
    using all [of ops] all [of "filter is_push ops"] all_c [of ops] all_c [of "filter is_push ops"]
      pushes
    by (simp add: run_def run_page_c_def reserved_pushes)
qed

theorem sealed_page_refuses_every_push_witness:
  "unat (16 :: size_t) < 2 ^ 31
   \<and> unat (write_index (write_idx_lock raw_qpage_new)) + unat (20 :: size_t) + 1
        + reserved [Push [1, 2] 2, Pop 0, Push [] 0] < 2 ^ 56
   \<and> raw_qpage_push 16 raw_qpage_new [] 20 =
       Inr (WRITE_PAGE_FULL,
            raw_qpage_new\<lparr>write_idx_lock := 21, buf := (buf raw_qpage_new)(0 := 0xFD)\<rparr>)
   \<and> raw_qpage_push_page_c 16 raw_qpage_new [] 20 =
       Inr (WRITE_PAGE_FULL,
            raw_qpage_new\<lparr>write_idx_lock := 21, buf := (buf raw_qpage_new)(0 := 0xFD)\<rparr>)
   \<and> stopped_at [Push [1, 2] 2, Pop 0, Push [] 0] (run 16
          (raw_qpage_new\<lparr>write_idx_lock := 21, buf := (buf raw_qpage_new)(0 := 0xFD)\<rparr>)
          [Push [1, 2] 2, Pop 0, Push [] 0]) = None
   \<and> stopped_at [Push [1, 2] 2, Pop 0, Push [] 0] (run_page_c 16
          (raw_qpage_new\<lparr>write_idx_lock := 21, buf := (buf raw_qpage_new)(0 := 0xFD)\<rparr>)
          [Push [1, 2] 2, Pop 0, Push [] 0]) = None
   \<and> map fst (run 16
          (raw_qpage_new\<lparr>write_idx_lock := 21, buf := (buf raw_qpage_new)(0 := 0xFD)\<rparr>)
          [Push [1, 2] 2, Pop 0, Push [] 0]) =
       [Pushed WRITE_PAGE_FULL,
        Popped \<lparr>len = 0, ptr = None, read_status = READ_FINISHED\<rparr> [],
        Pushed WRITE_PAGE_FULL]
   \<and> map fst (run_page_c 16
          (raw_qpage_new\<lparr>write_idx_lock := 21, buf := (buf raw_qpage_new)(0 := 0xFD)\<rparr>)
          [Push [1, 2] 2, Pop 0, Push [] 0]) =
       [Pushed WRITE_PAGE_FULL,
        Popped \<lparr>len = 0, ptr = None, read_status = READ_FINISHED\<rparr> [],
        Pushed WRITE_PAGE_FULL]
   \<and> map (write_idx_lock \<circ> snd) (run 16
          (raw_qpage_new\<lparr>write_idx_lock := 21, buf := (buf raw_qpage_new)(0 := 0xFD)\<rparr>)
          [Push [1, 2] 2, Pop 0, Push [] 0]) = [24, 24, 25]"
  using sealed_page_refuses_every_push [of 16 raw_qpage_new 20 "[Push [1, 2] 2, Pop 0, Push [] 0]"
      "[]" "raw_qpage_new\<lparr>write_idx_lock := 21, buf := (buf raw_qpage_new)(0 := 0xFD)\<rparr>"]
  by (simp add: eval_defs eval_defs_page_c write_index_def stopped_at_def)

text \<open>
  C5 as stated ("with any payload length") fails when the index field overflows.
  On a fresh page a push with \<^verbatim>\<open>len\<close> \<open>2 ^ 56 - 1\<close> is refused (the page-full branch does
  not read the buffer) and adds \<open>2 ^ 56\<close> to the index field, which leaves the write
  index at 0 (and the writer count at 1); the push
  of \<^verbatim>\<open>"abc"\<close> that follows finds room at offset 0, writes over the sentinel and
  returns 4. In both variants.
\<close>

theorem oversized_push_unseals_the_page:
  "pushed (run QUEUE_SIZE raw_qpage_new
      [Push [] 72057594037927935, Push [0x61, 0x62, 0x63] 3]) = [WRITE_PAGE_FULL, 4]
   \<and> pushed (run_page_c QUEUE_SIZE_page_c raw_qpage_new
      [Push [] 72057594037927935, Push [0x61, 0x62, 0x63] 3]) = [WRITE_PAGE_FULL, 4]
   \<and> 4 \<noteq> WRITE_PAGE_FULL"
  by (simp add: eval_defs eval_defs_page_c QUEUE_SIZE_def QUEUE_SIZE_page_c_def WRITE_PAGE_FULL_def)

text \<open>
  C6. After \<^verbatim>\<open>"abc"\<close> and then \<^verbatim>\<open>"de"\<close> are pushed on a fresh page, the first call
  returns 4 and the second 3, the bytes of the arena at the offsets 0 to 6 are
  \<^verbatim>\<open>61 62 63 FF 64 65 FF\<close>, and the reader's calls go: pop at 0 returns \<^verbatim>\<open>READ_SUCCESS\<close>
  with the 3 bytes \<^verbatim>\<open>"abc"\<close> at offset 0 (the reader moves on by 3 + 1, to 4); pop at 4
  returns \<^verbatim>\<open>READ_SUCCESS\<close> with the 2 bytes \<^verbatim>\<open>"de"\<close> at offset 4 (the reader moves on by
  2 + 1, to 7); pop at 7 returns \<^verbatim>\<open>READ_EMPTY\<close> with length 0 and a null pointer. So for
  part\_000 with the arena of page.h, and for page.c with its own.
\<close>

theorem two_messages_then_empty:
  "map fst (run QUEUE_SIZE raw_qpage_new
      [Push [0x61, 0x62, 0x63] 3, Push [0x64, 0x65] 2, Pop 0, Pop 4, Pop 7]) =
     [Pushed 4, Pushed 3,
      Popped \<lparr>len = 3, ptr = Some 0, read_status = READ_SUCCESS\<rparr> [0x61, 0x62, 0x63],
      Popped \<lparr>len = 2, ptr = Some 4, read_status = READ_SUCCESS\<rparr> [0x64, 0x65],
      Popped \<lparr>len = 0, ptr = None, read_status = READ_EMPTY\<rparr> []]
   \<and> read_bytes
        (buf (snd (last (run QUEUE_SIZE raw_qpage_new
           [Push [0x61, 0x62, 0x63] 3, Push [0x64, 0x65] 2])))) 0 7 =
     [0x61, 0x62, 0x63, 0xFF, 0x64, 0x65, 0xFF]
   \<and> map fst (run_page_c QUEUE_SIZE_page_c raw_qpage_new
      [Push [0x61, 0x62, 0x63] 3, Push [0x64, 0x65] 2, Pop 0, Pop 4, Pop 7]) =
     [Pushed 4, Pushed 3,
      Popped \<lparr>len = 3, ptr = Some 0, read_status = READ_SUCCESS\<rparr> [0x61, 0x62, 0x63],
      Popped \<lparr>len = 2, ptr = Some 4, read_status = READ_SUCCESS\<rparr> [0x64, 0x65],
      Popped \<lparr>len = 0, ptr = None, read_status = READ_EMPTY\<rparr> []]
   \<and> read_bytes
        (buf (snd (last (run_page_c QUEUE_SIZE_page_c raw_qpage_new
           [Push [0x61, 0x62, 0x63] 3, Push [0x64, 0x65] 2])))) 0 7 =
     [0x61, 0x62, 0x63, 0xFF, 0x64, 0x65, 0xFF]"
  by (simp add: eval_defs eval_defs_page_c QUEUE_SIZE_def QUEUE_SIZE_page_c_def)

text \<open>
  C7. The claim: at a cursor equal to the write index of a page with no writer in flight
  (nothing new past the cursor), pop returns \<^verbatim>\<open>READ_EMPTY\<close> with length 0 and a null
  pointer; so for cursor 0 on a fresh page. \<^verbatim>\<open>raw_qpage_pop\<close> of part\_000 tests
  \<^verbatim>\<open>end <= start_byte\<close> and returns so for every such cursor (\<open>pop_empty\<close>).
  \<^verbatim>\<open>raw_qpage_pop\<close> of page.c tests \<^verbatim>\<open>end == start_byte\<close> after \<^verbatim>\<open>end\<close> was clamped to the
  arena size. It returns so while the write index lies within the arena
  (\<open>pop_empty_page_c\<close>), but no longer on a sealed page, whose write index has passed
  the arena size: on a fresh page of page.c a push with \<^verbatim>\<open>len\<close> 131072003 is refused
  and leaves the write index at 131072004; the pop at that cursor finds
  \<^verbatim>\<open>end = QUEUE_SIZE\<close>, different from the cursor, and reads \<^verbatim>\<open>p->buf[131072004]\<close>, beyond
  the arena. part\_000 returns \<^verbatim>\<open>READ_EMPTY\<close> on the same page and cursor.
\<close>

theorem page_c_pop_at_write_index_beyond_arena:
  "raw_qpage_push_page_c QUEUE_SIZE_page_c raw_qpage_new [] 131072003 =
     Inr (WRITE_PAGE_FULL,
          raw_qpage_new\<lparr>write_idx_lock := 131072004, buf := (buf raw_qpage_new)(0 := 0xFD)\<rparr>)
   \<and> raw_qpage_pop_page_c QUEUE_SIZE_page_c
        (raw_qpage_new\<lparr>write_idx_lock := 131072004, buf := (buf raw_qpage_new)(0 := 0xFD)\<rparr>)
        131072004 = Some (Inl OutOfBounds)
   \<and> raw_qpage_pop QUEUE_SIZE_page_c
        (raw_qpage_new\<lparr>write_idx_lock := 131072004, buf := (buf raw_qpage_new)(0 := 0xFD)\<rparr>)
        131072004 =
       Some (Inr (\<lparr>len = 0, ptr = None, read_status = READ_EMPTY\<rparr>,
         raw_qpage_new\<lparr>write_idx_lock := 131072004, buf := (buf raw_qpage_new)(0 := 0xFD),
           last_safe_write_idx := 131072004\<rparr>))"
  by (simp add: eval_defs eval_defs_page_c QUEUE_SIZE_page_c_def)




text \<open>
  C9 (as amended). On a page with no writer in flight, a write index that leaves at
  least two free bytes of the arena, and \<^verbatim>\<open>last_safe_write_idx\<close> not beyond the write
  index, the push of a message of length 0 returns 1 and writes one byte, the
  terminator \<^verbatim>\<open>0xFF\<close>, at the write index; the write index advances by 1 and nothing
  else changes. The pop at that offset then returns \<^verbatim>\<open>READ_SUCCESS\<close> with length 0 and a
  pointer to the offset.
\<close>

theorem empty_message_push_pop:
  assumes qs: "unat qs < 2 ^ 31"
    and wc: "writer_count (write_idx_lock p) = 0"
    and safe: "last_safe_write_idx p \<le> write_idx_lock p"
    and room: "unat (write_idx_lock p) + 1 < unat qs"
  shows "raw_qpage_push qs p bs 0 =
      Inr (1, p\<lparr>write_idx_lock := write_idx_lock p + 1,
               buf := (buf p)(write_idx_lock p := VALUE_TERM_BYTE)\<rparr>)
    \<and> raw_qpage_pop qs
        (p\<lparr>write_idx_lock := write_idx_lock p + 1,
           buf := (buf p)(write_idx_lock p := VALUE_TERM_BYTE)\<rparr>)
        (write_idx_lock p) =
      Some (Inr (\<lparr>len = 0, ptr = Some (write_idx_lock p), read_status = READ_SUCCESS\<rparr>,
                 p\<lparr>write_idx_lock := write_idx_lock p + 1,
                   buf := (buf p)(write_idx_lock p := VALUE_TERM_BYTE),
                   last_safe_write_idx := write_idx_lock p + 1\<rparr>))"
proof -
  let ?s = "write_idx_lock p"
  let ?p = "p\<lparr>write_idx_lock := ?s + 1, buf := (buf p)(?s := VALUE_TERM_BYTE)\<rparr>"
  have wi: "write_index ?s = ?s"
    using wc by (simp add: write_index_eq_iff)
  have u1: "unat (?s + 1) = unat ?s + 1"
    using room by unat_arith
  have "to_int (0 + 1) = 1"
    by (simp add: to_int_def)
  then have push: "raw_qpage_push qs p bs 0 = Inr (1, ?p)"
    using push_ok [of p 0 qs bs] room wi by simp
  have wc1: "writer_count (?s + 1) = 0"
    using u1 room qs by (simp add: writer_count_0_iff)
  have pop: "raw_qpage_pop qs ?p ?s =
    Some (Inr (\<lparr>len = ?s - ?s, ptr = Some ?s, read_status = READ_SUCCESS\<rparr>,
               ?p\<lparr>last_safe_write_idx := write_idx_lock ?p\<rparr>))"
  proof (rule pop_found)
    show "writer_count (write_idx_lock ?p) = 0"
      using wc1 by simp
    show "last_safe_write_idx ?p \<le> ?s"
      using safe by simp
    show "?s \<le> ?s" by simp
    show "?s < write_idx_lock ?p"
      using u1 by (simp add: word_less_nat_alt)
    show "write_idx_lock ?p \<le> qs"
      using u1 room by (simp add: word_le_nat_alt)
    show "buf ?p ?s \<noteq> 0xFD"
      by (simp add: VALUE_TERM_BYTE_def)
    show "buf ?p ?s = VALUE_TERM_BYTE" by simp
    show "buf ?p j \<noteq> VALUE_TERM_BYTE" if "?s \<le> j" "j < ?s" for j
      using that by simp
  qed
  show ?thesis
    using push pop by simp
qed

theorem empty_message_push_pop_witness:
  "unat QUEUE_SIZE < 2 ^ 31
   \<and> writer_count (write_idx_lock raw_qpage_new) = 0
   \<and> last_safe_write_idx raw_qpage_new \<le> write_idx_lock raw_qpage_new
   \<and> unat (write_idx_lock raw_qpage_new) + 1 < unat QUEUE_SIZE
   \<and> raw_qpage_push QUEUE_SIZE raw_qpage_new [] 0 =
       Inr (1, raw_qpage_new\<lparr>write_idx_lock := 1,
                buf := (buf raw_qpage_new)(0 := VALUE_TERM_BYTE)\<rparr>)
   \<and> raw_qpage_pop QUEUE_SIZE
        (raw_qpage_new\<lparr>write_idx_lock := 1,
           buf := (buf raw_qpage_new)(0 := VALUE_TERM_BYTE)\<rparr>) 0 =
       Some (Inr (\<lparr>len = 0, ptr = Some 0, read_status = READ_SUCCESS\<rparr>,
                  raw_qpage_new\<lparr>write_idx_lock := 1,
                    buf := (buf raw_qpage_new)(0 := VALUE_TERM_BYTE),
                    last_safe_write_idx := 1\<rparr>))"
  using empty_message_push_pop [of QUEUE_SIZE raw_qpage_new "[]"]
  by (simp add: QUEUE_SIZE_def raw_qpage_new_def writer_count_def)

text \<open>
  C9 as stated fails on a page with exactly one free byte. With the arena of page.h and
  the write index at \<^verbatim>\<open>QUEUE_SIZE - 1\<close>, the push of the empty message finds
  \<^verbatim>\<open>start + 0 >= QUEUE_SIZE - 1\<close>, stamps the sentinel and returns \<^verbatim>\<open>WRITE_PAGE_FULL\<close>.
  The same on an arena of 16 bytes, after a message of 14 bytes that leaves offset 15
  free.
\<close>

theorem empty_message_with_one_free_byte_is_refused:
  "raw_qpage_push QUEUE_SIZE (raw_qpage_new\<lparr>write_idx_lock := QUEUE_SIZE - 1\<rparr>) [] 0 =
     Inr (WRITE_PAGE_FULL,
          raw_qpage_new\<lparr>write_idx_lock := QUEUE_SIZE,
            buf := (buf raw_qpage_new)(QUEUE_SIZE - 1 := 0xFD)\<rparr>)
   \<and> map fst (run 16 raw_qpage_new
        [Push [1, 2, 3, 4, 5, 6, 7, 8, 9, 10, 11, 12, 13, 14] 14, Push [] 0]) =
       [Pushed 15, Pushed WRITE_PAGE_FULL]
   \<and> WRITE_PAGE_FULL \<noteq> 1"
  by (simp add: eval_defs QUEUE_SIZE_def WRITE_PAGE_FULL_def)

text \<open>
  C10 (as amended). Let a push return \<^verbatim>\<open>WRITE_PAGE_FULL\<close> (in either variant), and let
  the write index before the call plus \<^verbatim>\<open>len + 1\<close> stay below \<open>2 ^ 56\<close>, the range of
  the index field. Then the reservation is not rolled back: the write index after the
  call is the one before plus \<^verbatim>\<open>len + 1\<close>, whatever the arena size; the writer count is
  the one before the call; no byte of the arena other than the one at the reserved
  start has changed, and that one is either \<^verbatim>\<open>0xFD\<close> or unchanged; \<^verbatim>\<open>is_ready\<close> and
  \<^verbatim>\<open>last_safe_write_idx\<close> are unchanged.
\<close>

theorem full_push_keeps_its_reservation:
  assumes qs: "unat qs < 2 ^ 31"
    and full: "raw_qpage_push qs p bs n = Inr (WRITE_PAGE_FULL, p') \<or>
               raw_qpage_push_page_c qs p bs n = Inr (WRITE_PAGE_FULL, p')"
    and fit: "unat (write_index (write_idx_lock p)) + unat n + 1 < 2 ^ 56"
  shows "unat (write_index (write_idx_lock p')) =
           unat (write_index (write_idx_lock p)) + unat n + 1
       \<and> writer_count (write_idx_lock p') = writer_count (write_idx_lock p)
       \<and> (\<forall>i. i \<noteq> write_index (write_idx_lock p) \<longrightarrow> buf p' i = buf p i)
       \<and> (buf p' (write_index (write_idx_lock p)) = 0xFD \<or>
          buf p' (write_index (write_idx_lock p)) = buf p (write_index (write_idx_lock p)))
       \<and> is_ready p' = is_ready p
       \<and> last_safe_write_idx p' = last_safe_write_idx p"
proof -
  have "int (unat n) + 1 \<noteq> 0"
    by linarith
  then have nz: "int (unat n) + 1 \<noteq> WRITE_PAGE_FULL"
    by (simp only: WRITE_PAGE_FULL_def) simp
  from full have "p' = p\<lparr>write_idx_lock := write_idx_lock p + n + 1,
                  buf := (if write_index (write_idx_lock p) \<le> qs - 1
                          then (buf p)(write_index (write_idx_lock p) := 0xFD) else buf p)\<rparr>
     \<or> p' = p\<lparr>write_idx_lock := write_idx_lock p + n + 1,
                  buf := (if write_index (write_idx_lock p) < qs - 1
                          then (buf p)(write_index (write_idx_lock p) := 0xFD) else buf p)\<rparr>"
    using push_returns [OF qs, of p bs n WRITE_PAGE_FULL p']
      push_page_c_returns [OF qs, of p bs n WRITE_PAGE_FULL p'] nz
    by auto
  then show ?thesis
    using state_advance [OF fit] by (auto split: if_splits)
qed

theorem full_push_keeps_its_reservation_witness:
  "unat QUEUE_SIZE < 2 ^ 31
   \<and> raw_qpage_push QUEUE_SIZE (raw_qpage_new\<lparr>write_idx_lock := 65535990\<rparr>) [] 20 =
       Inr (WRITE_PAGE_FULL,
            raw_qpage_new\<lparr>write_idx_lock := 65536011,
              buf := (buf raw_qpage_new)(65535990 := 0xFD)\<rparr>)
   \<and> unat (write_index (write_idx_lock (raw_qpage_new\<lparr>write_idx_lock := 65535990\<rparr>)))
         + unat (20 :: size_t) + 1 < 2 ^ 56
   \<and> unat (write_index 65536011) = unat (write_index 65535990) + unat (20 :: size_t) + 1
   \<and> writer_count 65536011 = writer_count 65535990
   \<and> ((buf raw_qpage_new)(65535990 := 0xFD)) 7 = buf raw_qpage_new 7"
  using full_push_keeps_its_reservation [of QUEUE_SIZE
      "raw_qpage_new\<lparr>write_idx_lock := 65535990\<rparr>" "[]" 20
      "raw_qpage_new\<lparr>write_idx_lock := 65536011,
         buf := (buf raw_qpage_new)(65535990 := 0xFD)\<rparr>"]
  by (simp add: eval_defs QUEUE_SIZE_def write_index_def)

text \<open>
  C10 as stated fails when the index field overflows. On a fresh page a push with
  \<^verbatim>\<open>len\<close> \<open>2 ^ 56 - 1\<close> (refused; the page-full branch does not read the buffer) adds
  \<open>2 ^ 56\<close> to the index field: the carry goes into the writer count, which is 1 after
  the call and was 0 before, and the write index is 0 as before.
\<close>

theorem full_push_carries_into_writer_count:
  "raw_qpage_push QUEUE_SIZE raw_qpage_new [] 72057594037927935 =
     Inr (WRITE_PAGE_FULL,
          raw_qpage_new\<lparr>write_idx_lock := QUEUE_MAGIC_NUM,
            buf := (buf raw_qpage_new)(0 := 0xFD)\<rparr>)
   \<and> writer_count QUEUE_MAGIC_NUM = 1
   \<and> writer_count (write_idx_lock raw_qpage_new) = 0
   \<and> write_index QUEUE_MAGIC_NUM = 0
   \<and> write_index (write_idx_lock raw_qpage_new) = 0"
  by (simp add: eval_defs QUEUE_SIZE_def write_index_def writer_count_def drop_bit_eq_div)

end
